theory Spec2Isabelle
  imports Main
begin

section \<open>Shared value types (common.hpp, state.hpp, transition.hpp)\<close>

text \<open>
  \<^verbatim>\<open>using StateId = int; using Symbol = char; using StackSymbol = char;\<close>
  State identifiers are modelled as unbounded integers: an automaton would need more than
  \<open>2^31\<close> states before \<^verbatim>\<open>nextStateId_++\<close> wraps. Symbols are bytes.
\<close>

type_synonym StateId = int
type_synonym Symbol = char
type_synonym StackSymbol = char

definition EPSILON :: Symbol where
  "EPSILON = CHR 0x00"

definition STACK_EMPTY :: StackSymbol where
  "STACK_EMPTY = CHR ''$''"

text \<open>
  The exception classes of common.hpp. \<open>AutomataException\<close> carries its message,
  \<open>InvalidStateException\<close> the offending id; \<open>OutOfRange\<close> stands for the
  \<^verbatim>\<open>std::out_of_range\<close> of \<^verbatim>\<open>std::map::at\<close>.
\<close>

datatype error =
    AutomataException string
  | ParseException string
  | InvalidStateException StateId
  | OutOfRange

text \<open>\<^verbatim>\<open>std::to_string(int)\<close>: decimal digits, a leading minus sign for negatives.\<close>

fun digits_of :: "nat \<Rightarrow> string" where
  "digits_of n =
     (if n < 10 then [char_of (48 + n)]
      else digits_of (n div 10) @ [char_of (48 + n mod 10)])"

declare digits_of.simps [simp del]

definition to_string :: "int \<Rightarrow> string" where
  "to_string i = (if i < 0 then CHR ''-'' # digits_of (nat (- i)) else digits_of (nat i))"

record State =
  sid :: StateId
  label :: string
  isAccepting :: bool
  isStart :: bool

text \<open>The constructor of \<open>State\<close>: an empty label defaults to \<open>q<id>\<close>.\<close>

definition mkState :: "StateId \<Rightarrow> string \<Rightarrow> bool \<Rightarrow> bool \<Rightarrow> State" where
  "mkState i l acc st =
     \<lparr>sid = i, label = (if l = [] then CHR ''q'' # to_string i else l),
      isAccepting = acc, isStart = st\<rparr>"

record Transition =
  t_from :: StateId
  t_to :: StateId
  t_symbol :: Symbol

definition mkTransition :: "StateId \<Rightarrow> StateId \<Rightarrow> Symbol \<Rightarrow> Transition" where
  "mkTransition f t s = \<lparr>t_from = f, t_to = t, t_symbol = s\<rparr>"


record PDATransition =
  pt_from :: StateId
  pt_to :: StateId
  pt_inputSymbol :: Symbol
  pt_popSymbol :: StackSymbol
  pt_pushSymbols :: string

text \<open>
  \<^verbatim>\<open>std::map::emplace\<close> inserts only when the key is absent;
  \<^verbatim>\<open>std::map::size\<close> counts the keys.
\<close>

definition emplace :: "('k \<rightharpoonup> 'v) \<Rightarrow> 'k \<Rightarrow> 'v \<Rightarrow> ('k \<rightharpoonup> 'v)" where
  "emplace m k v = (if k \<in> dom m then m else m(k \<mapsto> v))"

definition msize :: "('k \<rightharpoonup> 'v) \<Rightarrow> nat" where
  "msize m = card (dom m)"

section \<open>The deterministic automaton (dfa.hpp, dfa.cpp)\<close>

record DFA =
  states :: "StateId \<rightharpoonup> State"
  transitions :: "Transition list"
  transitionTable :: "(StateId \<times> Symbol) \<rightharpoonup> StateId"
  startState :: StateId
  acceptingStates :: "StateId set"
  nextStateId :: StateId
  alphabet :: "Symbol set"

text \<open>\<^verbatim>\<open>DFA::DFA() : startState_(-1), nextStateId_(0) {}\<close>\<close>

definition DFA_new :: DFA where
  "DFA_new = \<lparr>states = Map.empty, transitions = [], transitionTable = Map.empty,
     startState = - 1, acceptingStates = {}, nextStateId = 0, alphabet = {}\<rparr>"

definition DFA_addState :: "string \<Rightarrow> bool \<Rightarrow> DFA \<Rightarrow> StateId \<times> DFA" where
  "DFA_addState l acc d =
     (let i = nextStateId d;
          st = emplace (states d) i (mkState i l acc (states d = Map.empty));
          d1 = d\<lparr>nextStateId := i + 1, states := st\<rparr>;
          d2 = (if msize st = 1 then d1\<lparr>startState := i\<rparr> else d1);
          d3 = (if acc then d2\<lparr>acceptingStates := insert i (acceptingStates d2)\<rparr> else d2)
      in (i, d3))"

definition DFA_setStartState :: "StateId \<Rightarrow> DFA \<Rightarrow> error + DFA" where
  "DFA_setStartState i d =
     (case states d i of
        None \<Rightarrow> Inl (InvalidStateException i)
      | Some s \<Rightarrow>
          (let st1 = (if startState d \<ge> 0 then
                        (case states d (startState d) of
                           None \<Rightarrow> states d
                         | Some old \<Rightarrow> (states d)(startState d \<mapsto> old\<lparr>isStart := False\<rparr>))
                      else states d)
           in (case st1 i of
                 None \<Rightarrow> Inl OutOfRange
               | Some s1 \<Rightarrow> Inr (d\<lparr>states := st1(i \<mapsto> s1\<lparr>isStart := True\<rparr>), startState := i\<rparr>))))"

definition DFA_setAcceptingState :: "StateId \<Rightarrow> bool \<Rightarrow> DFA \<Rightarrow> error + DFA" where
  "DFA_setAcceptingState i acc d =
     (case states d i of
        None \<Rightarrow> Inl (InvalidStateException i)
      | Some s \<Rightarrow>
          Inr (d\<lparr>states := (states d)(i \<mapsto> s\<lparr>isAccepting := acc\<rparr>),
                 acceptingStates := (if acc then insert i (acceptingStates d)
                                     else acceptingStates d - {i})\<rparr>))"

text \<open>
  \<^verbatim>\<open>void DFA::addTransition(StateId from, StateId to, Symbol symbol)\<close>: both
  endpoints are checked first, then the table is consulted; a second transition for the
  same \<open>(from, symbol)\<close> raises \<open>AutomataException("DFA already has transition")\<close>.
\<close>

definition DFA_addTransition :: "StateId \<Rightarrow> StateId \<Rightarrow> Symbol \<Rightarrow> DFA \<Rightarrow> error + DFA" where
  "DFA_addTransition f t s d =
     (if states d f = None then Inl (InvalidStateException f)
      else if states d t = None then Inl (InvalidStateException t)
      else if (f, s) \<in> dom (transitionTable d) then
        Inl (AutomataException ''DFA already has transition'')
      else Inr (d\<lparr>transitions := transitions d @ [mkTransition f t s],
                  transitionTable := (transitionTable d)((f, s) \<mapsto> t),
                  alphabet := insert s (alphabet d)\<rparr>))"

definition DFA_getNextState :: "DFA \<Rightarrow> StateId \<Rightarrow> Symbol \<Rightarrow> StateId option" where
  "DFA_getNextState d f s = transitionTable d (f, s)"

text \<open>
  The determinism invariant: the list of transitions holds at most one entry for each
  \<open>(from, symbol)\<close> pair, and the table is exactly the map those entries describe.
\<close>

definition t_key :: "Transition \<Rightarrow> StateId \<times> Symbol" where
  "t_key t = (t_from t, t_symbol t)"

definition DFA_deterministic :: "DFA \<Rightarrow> bool" where
  "DFA_deterministic d \<longleftrightarrow>
     distinct (map t_key (transitions d)) \<and>
     transitionTable d = map_of (map (\<lambda>t. (t_key t, t_to t)) (transitions d))"

section \<open>The nondeterministic automaton (nfa.hpp, nfa.cpp)\<close>

record NFA =
  n_states :: "StateId \<rightharpoonup> State"
  n_transitions :: "Transition list"
  n_startState :: StateId
  n_acceptingStates :: "StateId set"
  n_nextStateId :: StateId

definition NFA_new :: NFA where
  "NFA_new = \<lparr>n_states = Map.empty, n_transitions = [], n_startState = - 1,
     n_acceptingStates = {}, n_nextStateId = 0\<rparr>"

definition NFA_addState :: "string \<Rightarrow> bool \<Rightarrow> NFA \<Rightarrow> StateId \<times> NFA" where
  "NFA_addState l acc n =
     (let i = n_nextStateId n;
          st = emplace (n_states n) i (mkState i l acc (n_states n = Map.empty));
          n1 = n\<lparr>n_nextStateId := i + 1, n_states := st\<rparr>;
          n2 = (if msize st = 1 then n1\<lparr>n_startState := i\<rparr> else n1);
          n3 = (if acc then n2\<lparr>n_acceptingStates := insert i (n_acceptingStates n2)\<rparr> else n2)
      in (i, n3))"

definition NFA_setStartState :: "StateId \<Rightarrow> NFA \<Rightarrow> error + NFA" where
  "NFA_setStartState i n =
     (case n_states n i of
        None \<Rightarrow> Inl (InvalidStateException i)
      | Some s \<Rightarrow>
          (let st1 = (if n_startState n \<ge> 0 then
                        (case n_states n (n_startState n) of
                           None \<Rightarrow> n_states n
                         | Some old \<Rightarrow> (n_states n)(n_startState n \<mapsto> old\<lparr>isStart := False\<rparr>))
                      else n_states n)
           in (case st1 i of
                 None \<Rightarrow> Inl OutOfRange
               | Some s1 \<Rightarrow>
                   Inr (n\<lparr>n_states := st1(i \<mapsto> s1\<lparr>isStart := True\<rparr>), n_startState := i\<rparr>))))"

definition NFA_setAcceptingState :: "StateId \<Rightarrow> bool \<Rightarrow> NFA \<Rightarrow> error + NFA" where
  "NFA_setAcceptingState i acc n =
     (case n_states n i of
        None \<Rightarrow> Inl (InvalidStateException i)
      | Some s \<Rightarrow>
          Inr (n\<lparr>n_states := (n_states n)(i \<mapsto> s\<lparr>isAccepting := acc\<rparr>),
                 n_acceptingStates := (if acc then insert i (n_acceptingStates n)
                                       else n_acceptingStates n - {i})\<rparr>))"

definition NFA_addTransition :: "StateId \<Rightarrow> StateId \<Rightarrow> Symbol \<Rightarrow> NFA \<Rightarrow> error + NFA" where
  "NFA_addTransition f t s n =
     (if n_states n f = None then Inl (InvalidStateException f)
      else if n_states n t = None then Inl (InvalidStateException t)
      else Inr (n\<lparr>n_transitions := n_transitions n @ [mkTransition f t s]\<rparr>))"

definition NFA_addEpsilonTransition :: "StateId \<Rightarrow> StateId \<Rightarrow> NFA \<Rightarrow> error + NFA" where
  "NFA_addEpsilonTransition f t n = NFA_addTransition f t EPSILON n"

text \<open>The two-argument overload of \<open>getTransitionsFrom\<close>.\<close>

definition NFA_getTransitionsFrom :: "NFA \<Rightarrow> StateId \<Rightarrow> Symbol \<Rightarrow> Transition list" where
  "NFA_getTransitionsFrom n q s =
     filter (\<lambda>t. t_from t = q \<and> t_symbol t = s) (n_transitions n)"

text \<open>
  \<open>epsilonClosure(StateId)\<close>: a worklist on a \<^verbatim>\<open>std::stack\<close> (the head of the list
  is the top). The inner \<^verbatim>\<open>for\<close> pushes every epsilon successor that is not yet in
  the closure.
\<close>

definition ec_visit :: "StateId list \<times> StateId set \<Rightarrow> Transition \<Rightarrow> StateId list \<times> StateId set" where
  "ec_visit sc t =
     (if t_to t \<notin> snd sc then (t_to t # fst sc, insert (t_to t) (snd sc)) else sc)"

definition ec_targets :: "NFA \<Rightarrow> StateId set" where
  "ec_targets n = t_to ` set (n_transitions n)"

lemma ec_visit_fold_measure:
  "t_to ` set ts \<subseteq> U \<Longrightarrow> finite U \<Longrightarrow>
     2 * card (U - snd (foldl ec_visit sc ts)) + length (fst (foldl ec_visit sc ts))
       \<le> 2 * card (U - snd sc) + length (fst sc)"
proof (induction ts arbitrary: sc)
  case Nil
  then show ?case by simp
next
  case (Cons t ts)
  have step: "2 * card (U - snd (ec_visit sc t)) + length (fst (ec_visit sc t))
        \<le> 2 * card (U - snd sc) + length (fst sc)"
  proof (cases "t_to t \<in> snd sc")
    case True
    then show ?thesis by (simp add: ec_visit_def)
  next
    case False
    from Cons.prems have "t_to t \<in> U" by simp
    with False have mem: "t_to t \<in> U - snd sc" by simp
    have fin: "finite (U - snd sc)" using Cons.prems(2) by simp
    have "U - insert (t_to t) (snd sc) = (U - snd sc) - {t_to t}" by blast
    then have "card (U - insert (t_to t) (snd sc)) < card (U - snd sc)"
      using card_Diff1_less [OF fin mem] by simp
    with False show ?thesis by (simp add: ec_visit_def)
  qed
  from Cons.prems have "t_to ` set ts \<subseteq> U" by simp
  from Cons.IH [OF this Cons.prems(2), of "ec_visit sc t"] step
  show ?case by simp
qed

function ec_loop :: "NFA \<Rightarrow> StateId list \<Rightarrow> StateId set \<Rightarrow> StateId set" where
  "ec_loop n [] closure = closure"
| "ec_loop n (current # stack) closure =
     (let sc = foldl ec_visit (stack, closure) (NFA_getTransitionsFrom n current EPSILON)
      in ec_loop n (fst sc) (snd sc))"
  by pat_completeness auto
termination
proof (relation "measure (\<lambda>(n, stack, closure).
          2 * card (ec_targets n - closure) + length stack)", goal_cases)
  case 1
  show ?case by simp
next
  case (2 n current stack closure sc)
  have "t_to ` set (NFA_getTransitionsFrom n current EPSILON) \<subseteq> ec_targets n"
    by (auto simp: NFA_getTransitionsFrom_def ec_targets_def)
  moreover have "finite (ec_targets n)"
    by (simp add: ec_targets_def)
  ultimately have
    "2 * card (ec_targets n - snd sc) + length (fst sc)
       \<le> 2 * card (ec_targets n - closure) + length stack"
    using ec_visit_fold_measure [of "NFA_getTransitionsFrom n current EPSILON"
        "ec_targets n" "(stack, closure)"] 2
    by simp
  then show ?case by (simp add: case_prod_beta)
qed

definition NFA_epsilonClosure1 :: "NFA \<Rightarrow> StateId \<Rightarrow> StateId set" where
  "NFA_epsilonClosure1 n q = ec_loop n [q] {q}"

text \<open>The overload on sets: the union of the closures of the members.\<close>

definition NFA_epsilonClosure :: "NFA \<Rightarrow> StateId set \<Rightarrow> StateId set" where
  "NFA_epsilonClosure n S = (\<Union>q\<in>S. NFA_epsilonClosure1 n q)"

definition NFA_move :: "NFA \<Rightarrow> StateId set \<Rightarrow> Symbol \<Rightarrow> StateId set" where
  "NFA_move n S s = (\<Union>q\<in>S. t_to ` set (NFA_getTransitionsFrom n q s))"

definition NFA_extendedDelta :: "NFA \<Rightarrow> StateId set \<Rightarrow> string \<Rightarrow> StateId set" where
  "NFA_extendedDelta n S w =
     foldl (\<lambda>current c. NFA_epsilonClosure n (NFA_move n current c)) (NFA_epsilonClosure n S) w"

definition NFA_accepts :: "NFA \<Rightarrow> string \<Rightarrow> bool" where
  "NFA_accepts n w =
     (if n_startState n < 0 then False
      else NFA_extendedDelta n {n_startState n} w \<inter> n_acceptingStates n \<noteq> {})"

record NFA_ExecutionStep =
  ns_currentStates :: "StateId set"
  ns_consumedSymbol :: Symbol
  ns_nextStates :: "StateId set"
  ns_isEpsilonMove :: bool

fun NFA_trace_loop ::
  "NFA \<Rightarrow> StateId set \<Rightarrow> string \<Rightarrow> NFA_ExecutionStep list \<Rightarrow> NFA_ExecutionStep list" where
  "NFA_trace_loop n current [] trace = trace"
| "NFA_trace_loop n current (c # w) trace =
     (let afterMove = NFA_move n current c;
          trace1 = trace @ [\<lparr>ns_currentStates = current, ns_consumedSymbol = c,
                              ns_nextStates = afterMove, ns_isEpsilonMove = False\<rparr>];
          afterEpsilonMove = NFA_epsilonClosure n afterMove;
          trace2 = (if afterEpsilonMove \<noteq> afterMove then
                      trace1 @ [\<lparr>ns_currentStates = afterMove, ns_consumedSymbol = EPSILON,
                                  ns_nextStates = afterEpsilonMove, ns_isEpsilonMove = True\<rparr>]
                    else trace1)
      in NFA_trace_loop n afterEpsilonMove w trace2)"

definition NFA_traceExecution :: "NFA \<Rightarrow> string \<Rightarrow> NFA_ExecutionStep list" where
  "NFA_traceExecution n w =
     (if n_startState n < 0 then []
      else
        (let current = {n_startState n};
             afterEpsilon = NFA_epsilonClosure n current
         in if afterEpsilon \<noteq> current then
              NFA_trace_loop n afterEpsilon w
                [\<lparr>ns_currentStates = current, ns_consumedSymbol = EPSILON,
                  ns_nextStates = afterEpsilon, ns_isEpsilonMove = True\<rparr>]
            else NFA_trace_loop n current w []))"


section \<open>Running a DFA\<close>

text \<open>The walk of \<open>DFA::accepts\<close>: follow the table, stop at the first missing entry.\<close>

fun DFA_walk :: "DFA \<Rightarrow> StateId \<Rightarrow> string \<Rightarrow> StateId option" where
  "DFA_walk d current [] = Some current"
| "DFA_walk d current (c # w) =
     (case DFA_getNextState d current c of
        None \<Rightarrow> None
      | Some next \<Rightarrow> DFA_walk d next w)"

definition DFA_accepts :: "DFA \<Rightarrow> string \<Rightarrow> bool" where
  "DFA_accepts d w =
     (if startState d < 0 then False
      else (case DFA_walk d (startState d) w of
              None \<Rightarrow> False
            | Some current \<Rightarrow> current \<in> acceptingStates d))"

record DFA_ExecutionStep =
  ds_currentState :: StateId
  ds_consumedSymbol :: Symbol
  ds_nextState :: StateId
  ds_accepted :: bool

fun DFA_trace_loop ::
  "DFA \<Rightarrow> StateId \<Rightarrow> string \<Rightarrow> DFA_ExecutionStep list \<Rightarrow> DFA_ExecutionStep list" where
  "DFA_trace_loop d current [] trace = trace"
| "DFA_trace_loop d current (c # w) trace =
     (case DFA_getNextState d current c of
        None \<Rightarrow>
          trace @ [\<lparr>ds_currentState = current, ds_consumedSymbol = c,
                     ds_nextState = - 1, ds_accepted = False\<rparr>]
      | Some next \<Rightarrow>
          DFA_trace_loop d next w
            (trace @ [\<lparr>ds_currentState = current, ds_consumedSymbol = c, ds_nextState = next,
                        ds_accepted = (w = [] \<and> next \<in> acceptingStates d)\<rparr>]))"

definition DFA_traceExecution :: "DFA \<Rightarrow> string \<Rightarrow> DFA_ExecutionStep list" where
  "DFA_traceExecution d w =
     (if startState d < 0 then [] else DFA_trace_loop d (startState d) w [])"

text \<open>
  \<open>DFA::findAllMatches\<close>. The inner loop runs \<open>j\<close> from \<open>i\<close> over the rest of the text
  and stops at the first missing transition; the outer loop runs \<open>i\<close> over every index of
  the text. The matches are returned in the order in which the source appends them.
\<close>

fun matches_inner :: "DFA \<Rightarrow> nat \<Rightarrow> nat \<Rightarrow> StateId \<Rightarrow> string \<Rightarrow> (nat \<times> nat) list" where
  "matches_inner d i j current [] = []"
| "matches_inner d i j current (c # cs) =
     (case DFA_getNextState d current c of
        None \<Rightarrow> []
      | Some next \<Rightarrow>
          (if next \<in> acceptingStates d then [(i, j + 1)] else [])
            @ matches_inner d i (j + 1) next cs)"

fun matches_outer :: "DFA \<Rightarrow> nat \<Rightarrow> string \<Rightarrow> (nat \<times> nat) list" where
  "matches_outer d i [] = []"
| "matches_outer d i (c # cs) =
     (if startState d \<in> acceptingStates d then [(i, i)] else [])
       @ matches_inner d i i (startState d) (c # cs)
       @ matches_outer d (i + 1) cs"

definition DFA_findAllMatches :: "DFA \<Rightarrow> string \<Rightarrow> (nat \<times> nat) list" where
  "DFA_findAllMatches d text = matches_outer d 0 text"

section \<open>The pushdown automaton (pda.hpp, pda.cpp)\<close>

record PDA =
  pda_states :: "StateId \<rightharpoonup> State"
  pda_transitions :: "PDATransition list"
  pda_startState :: StateId
  pda_acceptingStates :: "StateId set"
  pda_nextStateId :: StateId
  pda_initialStackSymbol :: StackSymbol

definition PDA_new :: PDA where
  "PDA_new = \<lparr>pda_states = Map.empty, pda_transitions = [], pda_startState = - 1,
     pda_acceptingStates = {}, pda_nextStateId = 0, pda_initialStackSymbol = STACK_EMPTY\<rparr>"

definition PDA_addState :: "string \<Rightarrow> bool \<Rightarrow> PDA \<Rightarrow> StateId \<times> PDA" where
  "PDA_addState l acc p =
     (let i = pda_nextStateId p;
          st = emplace (pda_states p) i (mkState i l acc (pda_states p = Map.empty));
          p1 = p\<lparr>pda_nextStateId := i + 1, pda_states := st\<rparr>;
          p2 = (if msize st = 1 then p1\<lparr>pda_startState := i\<rparr> else p1);
          p3 = (if acc then p2\<lparr>pda_acceptingStates := insert i (pda_acceptingStates p2)\<rparr>
                else p2)
      in (i, p3))"

text \<open>
  \<open>PDA::setStartState\<close> checks the id, stores it and sets the flag of the new start
  state; unlike the NFA and DFA versions it has no statement that clears the flag of the
  previous start state.
\<close>

definition PDA_setStartState :: "StateId \<Rightarrow> PDA \<Rightarrow> error + PDA" where
  "PDA_setStartState i p =
     (case pda_states p i of
        None \<Rightarrow> Inl (InvalidStateException i)
      | Some s \<Rightarrow>
          Inr (p\<lparr>pda_startState := i, pda_states := (pda_states p)(i \<mapsto> s\<lparr>isStart := True\<rparr>)\<rparr>))"

definition PDA_setAcceptingState :: "StateId \<Rightarrow> bool \<Rightarrow> PDA \<Rightarrow> error + PDA" where
  "PDA_setAcceptingState i acc p =
     (case pda_states p i of
        None \<Rightarrow> Inl (InvalidStateException i)
      | Some s \<Rightarrow>
          Inr (p\<lparr>pda_states := (pda_states p)(i \<mapsto> s\<lparr>isAccepting := acc\<rparr>),
                 pda_acceptingStates := (if acc then insert i (pda_acceptingStates p)
                                         else pda_acceptingStates p - {i})\<rparr>))"

definition PDA_setInitialStackSymbol :: "StackSymbol \<Rightarrow> PDA \<Rightarrow> PDA" where
  "PDA_setInitialStackSymbol s p = p\<lparr>pda_initialStackSymbol := s\<rparr>"

text \<open>
  \<open>PDA::addTransition\<close> is a single \<^verbatim>\<open>emplace_back\<close>: it has no check of either
  state id and no \<^verbatim>\<open>throw\<close>, so its model has no error branch.
\<close>

definition PDA_addTransition ::
  "StateId \<Rightarrow> StateId \<Rightarrow> Symbol \<Rightarrow> StackSymbol \<Rightarrow> string \<Rightarrow> PDA \<Rightarrow> PDA" where
  "PDA_addTransition f t inp pop push p =
     p\<lparr>pda_transitions := pda_transitions p @
          [\<lparr>pt_from = f, pt_to = t, pt_inputSymbol = inp, pt_popSymbol = pop,
            pt_pushSymbols = push\<rparr>]\<rparr>"

record Configuration =
  c_state :: StateId
  c_remainingInput :: string
  c_stack :: string

text \<open>
  One pass of the loop body of \<open>PDA::step\<close> for one transition: \<open>None\<close> where the
  source says \<^verbatim>\<open>continue\<close>, the successor configuration otherwise. The stack is a
  string with its top at the end.
\<close>

definition PDA_fire :: "Configuration \<Rightarrow> PDATransition \<Rightarrow> Configuration option" where
  "PDA_fire config t =
     (if pt_from t \<noteq> c_state config then None
      else
        (let consumeInput = (pt_inputSymbol t \<noteq> EPSILON) in
         if consumeInput \<and> (c_remainingInput config = []
              \<or> hd (c_remainingInput config) \<noteq> pt_inputSymbol t) then None
         else
           (let popStack = (pt_popSymbol t \<noteq> EPSILON) in
            if popStack \<and> (c_stack config = [] \<or> last (c_stack config) \<noteq> pt_popSymbol t)
            then None
            else Some \<lparr>c_state = pt_to t,
                   c_remainingInput = (if consumeInput then tl (c_remainingInput config)
                                       else c_remainingInput config),
                   c_stack = (if popStack then butlast (c_stack config) else c_stack config)
                               @ pt_pushSymbols t\<rparr>)))"

definition PDA_step :: "PDA \<Rightarrow> Configuration \<Rightarrow> Configuration list" where
  "PDA_step p config = List.map_filter (PDA_fire config) (pda_transitions p)"

type_synonym visited_key = "StateId \<times> string \<times> string"

definition config_key :: "Configuration \<Rightarrow> visited_key" where
  "config_key c = (c_state c, c_remainingInput c, c_stack c)"

text \<open>
  The search loop shared by \<open>acceptsByFinalState\<close> and \<open>acceptsByEmptyStack\<close>; the two
  bodies differ only in the acceptance test, which is the first argument here. The
  counter is \<open>maxIterations\<close>: the loop condition
  \<^verbatim>\<open>!bfs.empty() && maxIterations-- > 0\<close> fails when the queue is empty or the
  counter has reached zero, and each pass dequeues one configuration.
\<close>

fun PDA_search ::
  "(Configuration \<Rightarrow> bool) \<Rightarrow> PDA \<Rightarrow> nat \<Rightarrow> Configuration list \<Rightarrow> visited_key set \<Rightarrow> bool" where
  "PDA_search acc p maxIterations [] visited = False"
| "PDA_search acc p 0 (current # bfs) visited = False"
| "PDA_search acc p (Suc k) (current # bfs) visited =
     (if config_key current \<in> visited then PDA_search acc p k bfs visited
      else if acc current then True
      else PDA_search acc p k (bfs @ PDA_step p current) (insert (config_key current) visited))"

definition final_state_test :: "PDA \<Rightarrow> Configuration \<Rightarrow> bool" where
  "final_state_test p current \<longleftrightarrow>
     c_remainingInput current = [] \<and> c_state current \<in> pda_acceptingStates p"

definition empty_stack_test :: "Configuration \<Rightarrow> bool" where
  "empty_stack_test current \<longleftrightarrow> c_remainingInput current = [] \<and> c_stack current = []"

definition PDA_initial :: "PDA \<Rightarrow> string \<Rightarrow> Configuration" where
  "PDA_initial p input =
     \<lparr>c_state = pda_startState p, c_remainingInput = input,
      c_stack = [pda_initialStackSymbol p]\<rparr>"

definition PDA_acceptsByFinalState :: "PDA \<Rightarrow> string \<Rightarrow> bool" where
  "PDA_acceptsByFinalState p input =
     (if pda_startState p < 0 then False
      else PDA_search (final_state_test p) p 10000 [PDA_initial p input] {})"

definition PDA_acceptsByEmptyStack :: "PDA \<Rightarrow> string \<Rightarrow> bool" where
  "PDA_acceptsByEmptyStack p input =
     (if pda_startState p < 0 then False
      else PDA_search empty_stack_test p 10000 [PDA_initial p input] {})"

text \<open>
  The configurations the search loop dequeues, in order: the same recursion as
  \<open>PDA_search\<close>, recording each \<^verbatim>\<open>bfs.pop()\<close>. It is used to count the dequeues.
\<close>

fun PDA_dequeued ::
  "(Configuration \<Rightarrow> bool) \<Rightarrow> PDA \<Rightarrow> nat \<Rightarrow> Configuration list \<Rightarrow> visited_key set
     \<Rightarrow> Configuration list" where
  "PDA_dequeued acc p maxIterations [] visited = []"
| "PDA_dequeued acc p 0 (current # bfs) visited = []"
| "PDA_dequeued acc p (Suc k) (current # bfs) visited =
     current #
     (if config_key current \<in> visited then PDA_dequeued acc p k bfs visited
      else if acc current then []
      else PDA_dequeued acc p k (bfs @ PDA_step p current)
             (insert (config_key current) visited))"

record PDA_ExecutionStep =
  es_before :: Configuration
  es_transition :: "PDATransition option"
  es_after :: Configuration

record PathNode =
  pn_config :: Configuration
  pn_transition :: "PDATransition option"
  pn_parent :: int

text \<open>
  \<open>PDA::findAcceptingPath\<close>. Its loop is \<^verbatim>\<open>while (!bfs.empty())\<close> with no
  iteration counter, so it need not terminate; the model is a partial function whose
  value \<open>None\<close> means that the source does not return.

  The source binds \<^verbatim>\<open>const Configuration& current = nodes[idx].config\<close> and keeps
  reading \<open>current\<close> in the loop over the transitions, in which it also calls
  \<^verbatim>\<open>nodes.push_back\<close>. A \<^verbatim>\<open>push_back\<close> on a full vector moves the elements to new
  storage and frees the old one, after which \<open>current\<close> dangles; the next read through it
  has no defined result. The model therefore carries the capacity of \<open>nodes\<close> (a full
  vector of size \<open>n\<close> grows to capacity \<open>n + max n 1\<close>, as in libstdc++) and a run ends in
  \<open>Undefined\<close> at the first read through the dangling reference, as it does at an index
  out of range.
\<close>

datatype 'a run = Returns 'a | Undefined

partial_function (option) PDA_reconstruct ::
  "PathNode list \<Rightarrow> int \<Rightarrow> PDA_ExecutionStep list \<Rightarrow> PDA_ExecutionStep list run option" where
  "PDA_reconstruct nodes i path =
     (if i < 0 \<or> int (length nodes) \<le> i then Some Undefined
      else if pn_parent (nodes ! nat i) \<ge> 0 then
        (if int (length nodes) \<le> pn_parent (nodes ! nat i) then Some Undefined
         else PDA_reconstruct nodes (pn_parent (nodes ! nat i))
                (path @ [\<lparr>es_before = pn_config (nodes ! nat (pn_parent (nodes ! nat i))),
                           es_transition = pn_transition (nodes ! nat i),
                           es_after = pn_config (nodes ! nat i)\<rparr>]))
      else Some (Returns (rev path)))"

text \<open>
  The state of the loop over the transitions: the vector \<open>nodes\<close>, its capacity, the
  queue, and whether a \<^verbatim>\<open>push_back\<close> of this pass has reallocated the vector.
\<close>

record expand_state =
  x_nodes :: "PathNode list"
  x_capacity :: nat
  x_bfs :: "nat list"
  x_dangling :: bool

text \<open>
  One pass of \<^verbatim>\<open>for (const auto& t : transitions_)\<close>. Its first statement reads
  \<^verbatim>\<open>current.state\<close>; \<open>current\<close> is the configuration that the reference denoted
  when it was bound.
\<close>

definition path_expand ::
  "Configuration \<Rightarrow> nat \<Rightarrow> expand_state run \<Rightarrow> PDATransition \<Rightarrow> expand_state run" where
  "path_expand current idx r t =
     (case r of
        Undefined \<Rightarrow> Undefined
      | Returns x \<Rightarrow>
          if x_dangling x then Undefined
          else
            (case PDA_fire current t of
               None \<Rightarrow> Returns x
             | Some newConfig \<Rightarrow>
                 Returns
                   \<lparr>x_nodes = x_nodes x @ [\<lparr>pn_config = newConfig, pn_transition = Some t,
                                              pn_parent = int idx\<rparr>],
                    x_capacity = (if length (x_nodes x) < x_capacity x then x_capacity x
                                  else length (x_nodes x) + max (length (x_nodes x)) 1),
                    x_bfs = x_bfs x @ [length (x_nodes x)],
                    x_dangling = (\<not> length (x_nodes x) < x_capacity x)\<rparr>))"

definition lift_run :: "'a run option \<Rightarrow> 'a option run option" where
  "lift_run r =
     (case r of
        None \<Rightarrow> None
      | Some Undefined \<Rightarrow> Some Undefined
      | Some (Returns a) \<Rightarrow> Some (Returns (Some a)))"

partial_function (option) PDA_path_loop ::
  "PDA \<Rightarrow> PathNode list \<Rightarrow> nat \<Rightarrow> nat list \<Rightarrow> visited_key set
     \<Rightarrow> PDA_ExecutionStep list option run option" where
  "PDA_path_loop p nodes capacity bfs visited =
     (case bfs of
        [] \<Rightarrow> Some (Returns None)
      | idx # rest \<Rightarrow>
          if length nodes \<le> idx then Some Undefined
          else if config_key (pn_config (nodes ! idx)) \<in> visited then
            PDA_path_loop p nodes capacity rest visited
          else if final_state_test p (pn_config (nodes ! idx)) then
            lift_run (PDA_reconstruct nodes (int idx) [])
          else
            (case foldl (path_expand (pn_config (nodes ! idx)) idx)
                    (Returns \<lparr>x_nodes = nodes, x_capacity = capacity, x_bfs = rest,
                               x_dangling = False\<rparr>)
                    (pda_transitions p) of
               Undefined \<Rightarrow> Some Undefined
             | Returns x \<Rightarrow>
                 PDA_path_loop p (x_nodes x) (x_capacity x) (x_bfs x)
                   (insert (config_key (pn_config (nodes ! idx))) visited)))"

text \<open>The first \<^verbatim>\<open>push_back\<close>, on the empty vector, gives it the capacity 1.\<close>

definition PDA_findAcceptingPath ::
  "PDA \<Rightarrow> string \<Rightarrow> PDA_ExecutionStep list option run option" where
  "PDA_findAcceptingPath p input =
     (if pda_startState p < 0 then Some (Returns None)
      else PDA_path_loop p
             [\<lparr>pn_config = PDA_initial p input, pn_transition = None, pn_parent = - 1\<rparr>]
             1 [0] {})"

section \<open>Example automata\<close>

text \<open>A DFA with one accepting state and a loop on \<open>a\<close>.\<close>

definition loop_a_DFA :: DFA where
  "loop_a_DFA =
     \<lparr>states = [0 \<mapsto> mkState 0 [] True True],
      transitions = [mkTransition 0 0 (CHR ''a'')],
      transitionTable = [(0, CHR ''a'') \<mapsto> 0],
      startState = 0, acceptingStates = {0}, nextStateId = 1, alphabet = {CHR ''a''}\<rparr>"

text \<open>
  A PDA with one state, not accepting, and one transition that reads nothing, pops
  nothing and pushes \<open>A\<close>: every configuration it reaches is new.
\<close>

definition loop_PDA :: PDA where
  "loop_PDA =
     PDA_addTransition 0 0 EPSILON EPSILON ''A'' (snd (PDA_addState [] False PDA_new))"

definition loop_t :: PDATransition where
  "loop_t = \<lparr>pt_from = 0, pt_to = 0, pt_inputSymbol = EPSILON, pt_popSymbol = EPSILON,
     pt_pushSymbols = ''A''\<rparr>"

definition loop_cfg :: "nat \<Rightarrow> Configuration" where
  "loop_cfg k =
     \<lparr>c_state = 0, c_remainingInput = [], c_stack = STACK_EMPTY # replicate k (CHR ''A'')\<rparr>"

definition loop_node :: "nat \<Rightarrow> PathNode" where
  "loop_node k =
     \<lparr>pn_config = loop_cfg k, pn_transition = (if k = 0 then None else Some loop_t),
      pn_parent = int k - 1\<rparr>"

text \<open>The loop state of \<open>findAcceptingPath\<close> on \<open>loop_PDA\<close> after \<open>k\<close> passes.\<close>

definition loop_state ::
  "PDA \<Rightarrow> PathNode list \<Rightarrow> nat \<Rightarrow> nat list \<Rightarrow> visited_key set \<Rightarrow> bool" where
  "loop_state p nodes capacity bfs visited \<longleftrightarrow>
     p = loop_PDA \<and>
     (\<exists>k. nodes = map loop_node [0..<Suc k] \<and> bfs = [k]
          \<and> visited = config_key ` loop_cfg ` {..<k})"

text \<open>
  A PDA with one state and two transitions from it, the first of which fires on the
  input \<open>a\<close>.
\<close>

definition two_PDA :: PDA where
  "two_PDA =
     PDA_addTransition 0 0 (CHR ''b'') EPSILON []
       (PDA_addTransition 0 0 (CHR ''a'') EPSILON ''A'' (snd (PDA_addState [] False PDA_new)))"



section \<open>Edit distance (approximate_matcher.cpp)\<close>

text \<open>
  \<open>ApproximateMatcher::editDistance\<close> fills a table \<open>dp\<close> of \<open>(m+1) \<times> (n+1)\<close> integers
  row by row. \<open>ed_row\<close> is the inner loop over \<open>j\<close> for one row: it receives the part
  \<open>dp[i-1][j-1..n]\<close> of the previous row, the part \<open>s2[j-1..]\<close> of the second string and
  the entry \<open>dp[i][j-1]\<close> to the left, and returns \<open>dp[i][j..n]\<close>. \<open>ed_rows\<close> is the
  outer loop over \<open>i\<close>; it returns the last row, whose last entry is \<open>dp[m][n]\<close>. The
  entries are of type \<^verbatim>\<open>int\<close>; they are bounded by the longer length, far from
  overflow for any table that fits in memory.
\<close>

fun ed_row :: "char \<Rightarrow> int list \<Rightarrow> string \<Rightarrow> int \<Rightarrow> int list" where
  "ed_row a (diag # up # prev) (b # t) left =
     (let v = (if a = b then diag else 1 + min up (min left diag))
      in v # ed_row a (up # prev) t v)"
| "ed_row a prev t left = []"

fun ed_rows :: "nat \<Rightarrow> string \<Rightarrow> string \<Rightarrow> int list \<Rightarrow> int list" where
  "ed_rows i [] s2 row = row"
| "ed_rows i (a # s) s2 row = ed_rows (i + 1) s s2 (int i # ed_row a row s2 (int i))"

definition editDistance :: "string \<Rightarrow> string \<Rightarrow> int" where
  "editDistance s1 s2 = last (ed_rows 1 s1 s2 (map int [0..<length s2 + 1]))"

text \<open>
  The recurrence that the table implements, written on lists: \<open>dp[i][j]\<close> is \<open>lev\<close> of
  the reversed prefixes of length \<open>i\<close> and \<open>j\<close>.
\<close>

fun lev :: "'a list \<Rightarrow> 'a list \<Rightarrow> nat" where
  "lev [] t = length t"
| "lev s [] = length s"
| "lev (a # s) (b # t) =
     (if a = b then lev s t else 1 + min (lev s (b # t)) (min (lev (a # s) t) (lev s t)))"

text \<open>
  The row of the table that belongs to a prefix of the first string: \<open>rp\<close> and \<open>rq\<close> are
  reversed prefixes of the two strings and \<open>t\<close> is the rest of the second one.
\<close>

fun lev_row :: "'a list \<Rightarrow> 'a list \<Rightarrow> 'a list \<Rightarrow> int list" where
  "lev_row rp rq [] = [int (lev rp rq)]"
| "lev_row rp rq (b # t) = int (lev rp rq) # lev_row rp (b # rq) t"

section \<open>The regex parser (regex_parser.hpp, regex_parser.cpp)\<close>

text \<open>
  \<open>ASTNode\<close> is a struct with a type tag, a character, a character set, the children and
  the two repeat bounds; the fields a tag uses are the arguments of its constructor.
\<close>

datatype ASTNode =
    CHAR_NODE char
  | EPSILON_NODE
  | UNION ASTNode ASTNode
  | CONCAT ASTNode ASTNode
  | STAR ASTNode
  | PLUS ASTNode
  | OPTIONAL ASTNode
  | GROUP ASTNode
  | CHAR_CLASS "char set"
  | ANY
  | START_ANCHOR
  | END_ANCHOR
  | REPEAT_N ASTNode int int

text \<open>
  The parser state is the pattern and the position \<open>pos_\<close>. A parsing function returns
  \<open>Some (Inr (result, pos))\<close> when the source returns, \<open>Some (Inl e)\<close> when it throws
  \<open>e\<close>, and \<open>None\<close> when it does not return.
\<close>

type_synonym 'a outcome = "(error + 'a \<times> nat) option"

definition isAtEnd :: "string \<Rightarrow> nat \<Rightarrow> bool" where
  "isAtEnd pat pos \<longleftrightarrow> length pat \<le> pos"

definition peek :: "string \<Rightarrow> nat \<Rightarrow> char" where
  "peek pat pos = (if isAtEnd pat pos then CHR 0x00 else pat ! pos)"

definition isMetaChar :: "char \<Rightarrow> bool" where
  "isMetaChar c \<longleftrightarrow>
     c = CHR ''('' \<or> c = CHR '')'' \<or> c = CHR ''['' \<or> c = CHR '']'' \<or>
     c = CHR ''*'' \<or> c = CHR ''+'' \<or> c = CHR ''?'' \<or> c = CHR ''|'' \<or>
     c = CHR ''.'' \<or> c = CHR 0x5C \<or> c = CHR ''^'' \<or> c = CHR ''$'' \<or>
     c = CHR ''{'' \<or> c = CHR ''}''"

definition isdigit :: "char \<Rightarrow> bool" where
  "isdigit c \<longleftrightarrow> (48::nat) \<le> of_char c \<and> (of_char c :: nat) \<le> 57"

text \<open>
  \<open>parseNumber\<close>: the digits are accumulated in an \<^verbatim>\<open>int\<close>, which is 32 bits
  wide; the product and the sum of \<^verbatim>\<open>num * 10 + (advance() - '0')\<close> wrap around
  in two's complement, as the compiled code does.
\<close>

definition wrap32 :: "int \<Rightarrow> int" where
  "wrap32 x = (x + 2147483648) mod 4294967296 - 2147483648"

function parseNumber_loop :: "string \<Rightarrow> nat \<Rightarrow> int \<Rightarrow> bool \<Rightarrow> int \<times> nat" where
  "parseNumber_loop pat pos num hasDigit =
     (if \<not> isAtEnd pat pos \<and> isdigit (peek pat pos) then
        parseNumber_loop pat (pos + 1)
          (wrap32 (wrap32 (num * 10) + (int (of_char (pat ! pos)) - 48))) True
      else ((if hasDigit then num else - 1), pos))"
  by pat_completeness auto
termination
  by (relation "measure (\<lambda>(pat, pos, num, hasDigit). length pat - pos)")
     (auto simp: isAtEnd_def)

declare parseNumber_loop.simps [simp del]

definition parseNumber :: "string \<Rightarrow> nat \<Rightarrow> int \<times> nat" where
  "parseNumber pat pos = parseNumber_loop pat pos 0 False"

text \<open>
  \<open>parseCountedQuantifier\<close>: \<open>None\<close> is the result \<^verbatim>\<open>false\<close>, after which the
  position is the saved \<open>startPos\<close> again; \<open>Some (minRep, maxRep, pos)\<close> is the result
  \<^verbatim>\<open>true\<close> with the two output parameters.
\<close>

definition parseCountedQuantifier :: "string \<Rightarrow> nat \<Rightarrow> (int \<times> int \<times> nat) option" where
  "parseCountedQuantifier pat startPos =
     (if peek pat startPos \<noteq> CHR ''{'' then None
      else
        (let (minRep, pos1) = parseNumber pat (startPos + 1) in
         if minRep < 0 then None
         else if peek pat pos1 = CHR ''}'' then Some (minRep, minRep, pos1 + 1)
         else if peek pat pos1 = CHR '','' then
           (if peek pat (pos1 + 1) = CHR ''}'' then Some (minRep, - 1, pos1 + 2)
            else
              (let (maxRep, pos2) = parseNumber pat (pos1 + 1) in
               if maxRep < 0 \<or> peek pat pos2 \<noteq> CHR ''}'' then None
               else Some (minRep, maxRep, pos2 + 1)))
         else None))"

lemma parseNumber_loop_progress: "pos \<le> snd (parseNumber_loop pat pos num hasDigit)"
proof (induction pat pos num hasDigit rule: parseNumber_loop.induct)
  case (1 pat pos num hasDigit)
  show ?case
  proof (cases "\<not> isAtEnd pat pos \<and> isdigit (peek pat pos)")
    case True
    with 1 have "pos + 1 \<le> snd (parseNumber_loop pat pos num hasDigit)"
      by (subst parseNumber_loop.simps) simp
    then show ?thesis by simp
  next
    case False
    then show ?thesis by (subst parseNumber_loop.simps) auto
  qed
qed

lemma parseCountedQuantifier_progress:
  assumes "parseCountedQuantifier pat pos = Some (mn, mx, pos')"
  shows "pos < pos'"
proof -
  have a: "pos + 1 \<le> snd (parseNumber pat (pos + 1))"
    unfolding parseNumber_def by (rule parseNumber_loop_progress)
  have b: "p1 + 1 \<le> snd (parseNumber pat (p1 + 1))" for p1
    unfolding parseNumber_def by (rule parseNumber_loop_progress)
  obtain m1 p1 where n1: "parseNumber pat (pos + 1) = (m1, p1)" by force
  obtain m2 p2 where n2: "parseNumber pat (p1 + 1) = (m2, p2)" by force
  from a n1 have "pos < p1" by simp
  moreover from b [of p1] n2 have "p1 < p2" by simp
  ultimately show ?thesis
    using assms n1 n2
    by (auto simp: parseCountedQuantifier_def Let_def split: if_splits)
qed

text \<open>The \<^verbatim>\<open>while\<close> loop of \<open>parseRepeat\<close> over the quantifiers that follow an atom.\<close>

function repeat_loop :: "string \<Rightarrow> ASTNode \<Rightarrow> nat \<Rightarrow> ASTNode \<times> nat" where
  "repeat_loop pat base pos =
     (if isAtEnd pat pos then (base, pos)
      else
        (let c = peek pat pos in
         if c = CHR ''*'' then repeat_loop pat (STAR base) (pos + 1)
         else if c = CHR ''+'' then repeat_loop pat (PLUS base) (pos + 1)
         else if c = CHR ''?'' then repeat_loop pat (OPTIONAL base) (pos + 1)
         else if c = CHR ''{'' then
           (case parseCountedQuantifier pat pos of
              Some (minRep, maxRep, pos') \<Rightarrow> repeat_loop pat (REPEAT_N base minRep maxRep) pos'
            | None \<Rightarrow> (base, pos))
         else (base, pos)))"
  by pat_completeness auto
termination
  by (relation "measure (\<lambda>(pat, base, pos). length pat - pos)")
     (auto simp: isAtEnd_def dest: parseCountedQuantifier_progress)

declare repeat_loop.simps [simp del]

text \<open>
  \<open>parseCharClass\<close>. A range \<open>a-b\<close> is expanded by
  \<^verbatim>\<open>for (char c = start; c <= end; ++c)\<close> on a signed \<^verbatim>\<open>char\<close>: the
  counter wraps from 127 to -128, so the loop does not stop when \<open>end\<close> is 127.
\<close>

definition schar :: "char \<Rightarrow> int" where
  "schar c = (let v = int (of_char c) in if v < 128 then v else v - 256)"

definition of_schar :: "int \<Rightarrow> char" where
  "of_schar v = char_of (nat (v mod 256))"

partial_function (option) range_loop :: "int \<Rightarrow> int \<Rightarrow> char set \<Rightarrow> char set option" where
  "range_loop c e chars =
     (if c \<le> e then range_loop (if c = 127 then - 128 else c + 1) e (insert (of_schar c) chars)
      else Some chars)"

function charclass_loop :: "string \<Rightarrow> nat \<Rightarrow> char set \<Rightarrow> (char set \<times> nat) option" where
  "charclass_loop pat pos chars =
     (if \<not> isAtEnd pat pos \<and> peek pat pos \<noteq> CHR '']'' then
        (let start = pat ! pos in
         if peek pat (pos + 1) = CHR ''-'' \<and> pos + 2 < length pat \<and> pat ! (pos + 2) \<noteq> CHR '']''
         then
           (case range_loop (schar start) (schar (pat ! (pos + 2))) chars of
              None \<Rightarrow> None
            | Some chars' \<Rightarrow> charclass_loop pat (pos + 3) chars')
         else charclass_loop pat (pos + 1) (insert start chars))
      else Some (chars, pos))"
  by pat_completeness auto
termination
  by (relation "measure (\<lambda>(pat, pos, chars). length pat - pos)")
     (auto simp: isAtEnd_def)

declare charclass_loop.simps [simp del]

definition printable :: "char set" where
  "printable = char_of ` {32..<127::nat}"

definition parseCharClass :: "string \<Rightarrow> nat \<Rightarrow> (char set \<times> nat) option" where
  "parseCharClass pat pos =
     (let negate = (peek pat pos = CHR ''^'');
          pos1 = (if negate then pos + 1 else pos)
      in (case charclass_loop pat pos1 {} of
            None \<Rightarrow> None
          | Some (chars, pos2) \<Rightarrow>
              if negate then Some (printable - chars, pos2) else Some (chars, pos2)))"

definition throw :: "string \<Rightarrow> 'a outcome" where
  "throw msg = Some (Inl (ParseException msg))"

text \<open>The tail of \<open>parseConcat\<close>: the parts are folded into left-nested \<open>CONCAT\<close> nodes.\<close>

definition build_concat :: "ASTNode list \<Rightarrow> ASTNode" where
  "build_concat parts =
     (case parts of
        [] \<Rightarrow> EPSILON_NODE
      | p # ps \<Rightarrow> foldl CONCAT p ps)"

function parseUnion :: "string \<Rightarrow> nat \<Rightarrow> ASTNode outcome"
  and union_loop :: "string \<Rightarrow> ASTNode \<Rightarrow> nat \<Rightarrow> ASTNode outcome"
  and parseConcat :: "string \<Rightarrow> nat \<Rightarrow> ASTNode outcome"
  and concat_loop :: "string \<Rightarrow> ASTNode list \<Rightarrow> nat \<Rightarrow> (ASTNode list) outcome"
  and parseRepeat :: "string \<Rightarrow> nat \<Rightarrow> ASTNode outcome"
  and parseAtom :: "string \<Rightarrow> nat \<Rightarrow> ASTNode outcome"
where
  "parseUnion pat pos =
     (case parseConcat pat pos of
        None \<Rightarrow> None
      | Some (Inl e) \<Rightarrow> Some (Inl e)
      | Some (Inr (left, pos1)) \<Rightarrow> union_loop pat left pos1)"
| "union_loop pat left pos =
     (if peek pat pos = CHR ''|'' then
        (case parseConcat pat (pos + 1) of
           None \<Rightarrow> None
         | Some (Inl e) \<Rightarrow> Some (Inl e)
         | Some (Inr (right, pos1)) \<Rightarrow> union_loop pat (UNION left right) pos1)
      else Some (Inr (left, pos)))"
| "parseConcat pat pos =
     (case concat_loop pat [] pos of
        None \<Rightarrow> None
      | Some (Inl e) \<Rightarrow> Some (Inl e)
      | Some (Inr (parts, pos1)) \<Rightarrow> Some (Inr (build_concat parts, pos1)))"
| "concat_loop pat parts pos =
     (if \<not> isAtEnd pat pos \<and> peek pat pos \<noteq> CHR ''|'' \<and> peek pat pos \<noteq> CHR '')'' then
        (case parseRepeat pat pos of
           None \<Rightarrow> None
         | Some (Inl e) \<Rightarrow> Some (Inl e)
         | Some (Inr (node, pos1)) \<Rightarrow> concat_loop pat (parts @ [node]) pos1)
      else Some (Inr (parts, pos)))"
| "parseRepeat pat pos =
     (case parseAtom pat pos of
        None \<Rightarrow> None
      | Some (Inl e) \<Rightarrow> Some (Inl e)
      | Some (Inr (base, pos1)) \<Rightarrow> Some (Inr (repeat_loop pat base pos1)))"
| "parseAtom pat pos =
     (if isAtEnd pat pos then throw ''Unexpected end of pattern''
      else
        (let c = peek pat pos in
         if c = CHR ''('' then
           (case parseUnion pat (pos + 1) of
              None \<Rightarrow> None
            | Some (Inl e) \<Rightarrow> Some (Inl e)
            | Some (Inr (inner, pos1)) \<Rightarrow>
                if peek pat pos1 = CHR '')'' then Some (Inr (GROUP inner, pos1 + 1))
                else throw ''Missing closing parenthesis'')
         else if c = CHR ''['' then
           (case parseCharClass pat (pos + 1) of
              None \<Rightarrow> None
            | Some (charClass, pos1) \<Rightarrow>
                if peek pat pos1 = CHR '']'' then Some (Inr (CHAR_CLASS charClass, pos1 + 1))
                else throw ''Missing closing bracket'')
         else if c = CHR ''.'' then Some (Inr (ANY, pos + 1))
         else if c = CHR ''^'' then Some (Inr (START_ANCHOR, pos + 1))
         else if c = CHR ''$'' then Some (Inr (END_ANCHOR, pos + 1))
         else if c = CHR 0x5C then
           (if isAtEnd pat (pos + 1) then throw ''Escape at end of pattern''
            else Some (Inr (CHAR_NODE (pat ! (pos + 1)), pos + 2)))
         else if isMetaChar c then throw (''Unexpected metacharacter: '' @ [c])
         else Some (Inr (CHAR_NODE c, pos + 1))))"
  by pat_completeness auto

text \<open>
  Termination of the recursive descent: every function returns a position that is not
  before the one it was called at, and \<open>parseRepeat\<close> and \<open>parseAtom\<close> consume at
  least one character.
\<close>

lemma repeat_loop_progress: "pos \<le> snd (repeat_loop pat base pos)"
proof (induction pat base pos rule: repeat_loop.induct)
  case (1 pat base pos)
  show ?case
  proof (cases "isAtEnd pat pos")
    case True
    then show ?thesis by (subst repeat_loop.simps) simp
  next
    case ne: False
    consider (star) "peek pat pos = CHR ''*''" | (plus) "peek pat pos = CHR ''+''"
      | (opt) "peek pat pos = CHR ''?''" | (brace) "peek pat pos = CHR ''{''"
      | (other) "peek pat pos \<noteq> CHR ''*''" "peek pat pos \<noteq> CHR ''+''"
          "peek pat pos \<noteq> CHR ''?''" "peek pat pos \<noteq> CHR ''{''"
      by blast
    then show ?thesis
    proof cases
      case star
      have "repeat_loop pat base pos = repeat_loop pat (STAR base) (pos + 1)"
        by (subst repeat_loop.simps) (simp add: ne star Let_def)
      with "1.IH"(1) [OF ne refl star] show ?thesis by simp
    next
      case plus
      have "repeat_loop pat base pos = repeat_loop pat (PLUS base) (pos + 1)"
        by (subst repeat_loop.simps) (simp add: ne plus Let_def)
      with "1.IH"(2) [OF ne refl] plus show ?thesis by simp
    next
      case opt
      have "repeat_loop pat base pos = repeat_loop pat (OPTIONAL base) (pos + 1)"
        by (subst repeat_loop.simps) (simp add: ne opt Let_def)
      with "1.IH"(3) [OF ne refl] opt show ?thesis by simp
    next
      case brace
      show ?thesis
      proof (cases "parseCountedQuantifier pat pos")
        case None
        have "repeat_loop pat base pos = (base, pos)"
          by (subst repeat_loop.simps) (simp add: ne brace None Let_def)
        then show ?thesis by simp
      next
        case (Some r)
        obtain mn mx p' where r: "r = (mn, mx, p')" by (cases r) auto
        have lt: "pos < p'" using Some r parseCountedQuantifier_progress by blast
        have eq: "repeat_loop pat base pos = repeat_loop pat (REPEAT_N base mn mx) p'"
          by (subst repeat_loop.simps) (simp add: ne brace Some r Let_def)
        from brace have n: "peek pat pos \<noteq> CHR ''*''" "peek pat pos \<noteq> CHR ''+''"
          "peek pat pos \<noteq> CHR ''?''" by simp_all
        have "p' \<le> snd (repeat_loop pat (REPEAT_N base mn mx) p')"
          by (rule "1.IH"(4) [OF ne refl n brace Some [unfolded r] refl refl])
        with lt eq show ?thesis by simp
      qed
    next
      case other
      have "repeat_loop pat base pos = (base, pos)"
        by (subst repeat_loop.simps) (simp add: ne other Let_def)
      then show ?thesis by simp
    qed
  qed
qed

lemma charclass_loop_progress:
  "charclass_loop pat pos chars = Some (cc, p') \<Longrightarrow> pos \<le> p'"
proof (induction pat pos chars rule: charclass_loop.induct)
  case (1 pat pos chars)
  show ?case
  proof (cases "\<not> isAtEnd pat pos \<and> peek pat pos \<noteq> CHR '']''")
    case False
    with "1.prems" show ?thesis
      by (subst (asm) charclass_loop.simps) auto
  next
    case c1: True
    show ?thesis
    proof (cases "peek pat (pos + 1) = CHR ''-'' \<and> pos + 2 < length pat
        \<and> pat ! (pos + 2) \<noteq> CHR '']''")
      case c2: True
      with c1 "1.prems" obtain chars' where
        rl: "range_loop (schar (pat ! pos)) (schar (pat ! (pos + 2))) chars = Some chars'"
        and rec: "charclass_loop pat (pos + 3) chars' = Some (cc, p')"
        by (subst (asm) charclass_loop.simps) (auto simp: Let_def split: option.splits)
      from "1.IH"(1) [OF c1 refl c2 rl rec] show ?thesis by simp
    next
      case c2: False
      with c1 "1.prems" have
        rec: "charclass_loop pat (pos + 1) (insert (pat ! pos) chars) = Some (cc, p')"
        by (subst (asm) charclass_loop.simps) (auto simp: Let_def)
      from "1.IH"(2) [OF c1 refl c2 rec] show ?thesis by simp
    qed
  qed
qed

lemma parseCharClass_progress: "parseCharClass pat pos = Some (cc, p') \<Longrightarrow> pos \<le> p'"
  by (auto simp: parseCharClass_def Let_def split: option.splits if_splits
      dest!: charclass_loop_progress)

lemma outcome_caseD:
  "(case r of None \<Rightarrow> None | Some (Inl e) \<Rightarrow> Some (Inl e) | Some (Inr (a, p)) \<Rightarrow> f a p)
      = Some (Inr v)
   \<Longrightarrow> \<exists>a p. r = Some (Inr (a, p)) \<and> f a p = Some (Inr v)"
  by (auto split: option.splits sum.splits)

lemma parse_progress_dom:
  "parseUnion_union_loop_parseConcat_concat_loop_parseRepeat_parseAtom_dom (Inl (Inl (pat, pos)))
     \<Longrightarrow> parseUnion pat pos = Some (Inr (n, p')) \<longrightarrow> pos \<le> p'"
  "parseUnion_union_loop_parseConcat_concat_loop_parseRepeat_parseAtom_dom
       (Inl (Inr (Inl (pat, left, pos))))
     \<Longrightarrow> union_loop pat left pos = Some (Inr (n, p')) \<longrightarrow> pos \<le> p'"
  "parseUnion_union_loop_parseConcat_concat_loop_parseRepeat_parseAtom_dom (Inl (Inr (Inr (pat, pos))))
     \<Longrightarrow> parseConcat pat pos = Some (Inr (n, p')) \<longrightarrow> pos \<le> p'"
  "parseUnion_union_loop_parseConcat_concat_loop_parseRepeat_parseAtom_dom
       (Inr (Inl (pat, parts, pos)))
     \<Longrightarrow> concat_loop pat parts pos = Some (Inr (ns, p')) \<longrightarrow> pos \<le> p'"
  "parseUnion_union_loop_parseConcat_concat_loop_parseRepeat_parseAtom_dom (Inr (Inr (Inl (pat, pos))))
     \<Longrightarrow> parseRepeat pat pos = Some (Inr (n, p')) \<longrightarrow> pos < p'"
  "parseUnion_union_loop_parseConcat_concat_loop_parseRepeat_parseAtom_dom (Inr (Inr (Inr (pat, pos))))
     \<Longrightarrow> parseAtom pat pos = Some (Inr (n, p')) \<longrightarrow> pos < p'"
proof (induct arbitrary: n p' and n p' and n p' and ns p' and n p' and n p'
    rule: parseUnion_union_loop_parseConcat_concat_loop_parseRepeat_parseAtom.pinduct)
  case (1 pat pos)
  show ?case
  proof
    assume "parseUnion pat pos = Some (Inr (n, p'))"
    then obtain left p1 where c: "parseConcat pat pos = Some (Inr (left, p1))"
      and ul: "union_loop pat left p1 = Some (Inr (n, p'))"
      unfolding parseUnion.psimps [OF 1(1)] by (drule_tac outcome_caseD) blast
    from 1(2) [of left p1] c have "pos \<le> p1" by simp
    moreover from 1(3) [OF c refl refl, of n p'] ul have "p1 \<le> p'" by simp
    ultimately show "pos \<le> p'" by simp
  qed
next
  case (2 pat left pos)
  show ?case
  proof
    assume r: "union_loop pat left pos = Some (Inr (n, p'))"
    show "pos \<le> p'"
    proof (cases "peek pat pos = CHR ''|''")
      case True
      with r obtain right p1 where c: "parseConcat pat (pos + 1) = Some (Inr (right, p1))"
        and ul: "union_loop pat (UNION left right) p1 = Some (Inr (n, p'))"
        unfolding union_loop.psimps [OF 2(1)] by simp (drule_tac outcome_caseD, blast)
      from 2(2) [OF True, of right p1] c have "pos + 1 \<le> p1" by simp
      moreover from 2(3) [OF True c refl refl, of n p'] ul have "p1 \<le> p'" by simp
      ultimately show ?thesis by simp
    next
      case False
      with r show ?thesis
        unfolding union_loop.psimps [OF 2(1)] by simp
    qed
  qed
next
  case (3 pat pos)
  show ?case
  proof
    assume "parseConcat pat pos = Some (Inr (n, p'))"
    then obtain parts p1 where c: "concat_loop pat [] pos = Some (Inr (parts, p1))"
      and e: "Some (Inr (build_concat parts, p1)) = Some (Inr (n, p'))"
      unfolding parseConcat.psimps [OF 3(1)] by (drule_tac outcome_caseD) blast
    from 3(2) [of parts p1] c have "pos \<le> p1" by simp
    with e show "pos \<le> p'" by simp
  qed
next
  case (4 pat parts pos)
  show ?case
  proof
    assume r: "concat_loop pat parts pos = Some (Inr (ns, p'))"
    show "pos \<le> p'"
    proof (cases "\<not> isAtEnd pat pos \<and> peek pat pos \<noteq> CHR ''|'' \<and> peek pat pos \<noteq> CHR '')''")
      case True
      with r obtain node p1 where c: "parseRepeat pat pos = Some (Inr (node, p1))"
        and cl: "concat_loop pat (parts @ [node]) p1 = Some (Inr (ns, p'))"
        unfolding concat_loop.psimps [OF 4(1)] by simp (drule_tac outcome_caseD, blast)
      from 4(2) [OF True, of node p1] c have "pos < p1" by simp
      moreover from 4(3) [OF True c refl refl, of ns p'] cl have "p1 \<le> p'" by simp
      ultimately show ?thesis by simp
    next
      case False
      with r show ?thesis
        unfolding concat_loop.psimps [OF 4(1)] by auto
    qed
  qed
next
  case (5 pat pos)
  show ?case
  proof
    assume "parseRepeat pat pos = Some (Inr (n, p'))"
    then obtain base p1 where c: "parseAtom pat pos = Some (Inr (base, p1))"
      and e: "Some (Inr (repeat_loop pat base p1)) = Some (Inr (n, p'))"
      unfolding parseRepeat.psimps [OF 5(1)] by (drule_tac outcome_caseD) blast
    from 5(2) [of base p1] c have "pos < p1" by simp
    moreover have "p1 \<le> snd (repeat_loop pat base p1)" by (rule repeat_loop_progress)
    moreover from e have "snd (repeat_loop pat base p1) = p'" by simp
    ultimately show "pos < p'" by simp
  qed
next
  case (6 pat pos)
  show ?case
  proof
    assume r: "parseAtom pat pos = Some (Inr (n, p'))"
    note eq = parseAtom.psimps [OF 6(1)]
    from r eq have ne: "\<not> isAtEnd pat pos"
      by (auto simp: throw_def)
    show "pos < p'"
    proof (cases "peek pat pos = CHR ''(''")
      case True
      from r have "(case parseUnion pat (pos + 1) of None \<Rightarrow> None
            | Some (Inl e) \<Rightarrow> Some (Inl e)
            | Some (Inr (inner, pos1)) \<Rightarrow>
                if peek pat pos1 = CHR '')'' then Some (Inr (GROUP inner, pos1 + 1))
                else throw ''Missing closing parenthesis'') = Some (Inr (n, p'))"
        unfolding eq using ne True by (simp add: Let_def)
      then obtain inner p1 where
        u: "parseUnion pat (pos + 1) = Some (Inr (inner, p1))" and
        e: "(if peek pat p1 = CHR '')'' then Some (Inr (GROUP inner, p1 + 1))
                else throw ''Missing closing parenthesis'') = Some (Inr (n, p'))"
        by (drule_tac outcome_caseD) blast
      from e have p': "p' = p1 + 1"
        by (auto simp: throw_def split: if_splits)
      from 6(2) [OF ne refl True, of inner p1] u have "pos + 1 \<le> p1" by simp
      with p' show ?thesis by simp
    next
      case nparen: False
      show ?thesis
      proof (cases "peek pat pos = CHR ''[''")
        case True
        from r have "(case parseCharClass pat (pos + 1) of None \<Rightarrow> None
              | Some (charClass, pos1) \<Rightarrow>
                  if peek pat pos1 = CHR '']'' then Some (Inr (CHAR_CLASS charClass, pos1 + 1))
                  else throw ''Missing closing bracket'') = Some (Inr (n, p'))"
          unfolding eq using ne True by (simp add: Let_def)
        then obtain cc p1 where cc: "parseCharClass pat (pos + 1) = Some (cc, p1)"
          and p': "p' = p1 + 1"
          by (auto simp: throw_def split: option.splits if_splits)
        from parseCharClass_progress [OF cc] p' show ?thesis by simp
      next
        case False
        with r nparen ne show ?thesis
          unfolding eq by (simp add: Let_def throw_def split: if_splits)
      qed
    qed
  qed
qed

lemma peek_not_at_end: "peek pat pos = c \<Longrightarrow> c \<noteq> CHR 0x00 \<Longrightarrow> pos < length pat"
  by (auto simp: peek_def isAtEnd_def split: if_splits)

termination parseUnion
proof (relation "inv_image (measure id <*lex*> measure id) (\<lambda>x. case x of
           Inl (Inl (pat, pos)) \<Rightarrow> (length pat - pos, 5)
         | Inl (Inr (Inl (pat, left, pos))) \<Rightarrow> (length pat - pos, 4)
         | Inl (Inr (Inr (pat, pos))) \<Rightarrow> (length pat - pos, 3)
         | Inr (Inl (pat, parts, pos)) \<Rightarrow> (length pat - pos, 2)
         | Inr (Inr (Inl (pat, pos))) \<Rightarrow> (length pat - pos, 1)
         | Inr (Inr (Inr (pat, pos))) \<Rightarrow> (length pat - pos, 0))", goal_cases)
  case 1
  show ?case by (intro wf_inv_image wf_lex_prod wf_measure)
next
  case (2 pat pos)
  show ?case by simp
next
  case (3 pat pos x2 b x y)
  from parse_progress_dom(3) [OF 3(4), of x y] 3(1-3) have "pos \<le> y" by simp
  then show ?case by auto
next
  case (4 pat left pos)
  from peek_not_at_end [OF 4] have "pos < length pat" by simp
  then show ?case by auto
next
  case (5 pat left pos x2 b x y)
  from peek_not_at_end [OF 5(1)] have "pos < length pat" by simp
  moreover from parse_progress_dom(3) [OF 5(5), of x y] 5(2-4) have "pos + 1 \<le> y" by simp
  ultimately show ?case by auto
next
  case (6 pat pos)
  show ?case by simp
next
  case (7 pat parts pos)
  show ?case by simp
next
  case (8 pat parts pos x2 b x y)
  from 8(1) have "pos < length pat" by (simp add: isAtEnd_def)
  moreover from parse_progress_dom(5) [OF 8(5), of x y] 8(2-4) have "pos < y" by simp
  ultimately show ?case by auto
next
  case (9 pat pos)
  show ?case by simp
next
  case (10 pat pos x)
  from 10(1) have "pos < length pat" by (simp add: isAtEnd_def)
  then show ?case by auto
qed

declare parseUnion.simps [simp del] union_loop.simps [simp del] parseConcat.simps [simp del]
  concat_loop.simps [simp del] parseRepeat.simps [simp del] parseAtom.simps [simp del]

section \<open>Thompson construction (nfa.cpp, regex_parser.cpp)\<close>

text \<open>Sequencing of steps that may throw.\<close>

definition ebind :: "error + 'a \<Rightarrow> ('a \<Rightarrow> error + 'b) \<Rightarrow> error + 'b" where
  "ebind r f = (case r of Inl e \<Rightarrow> Inl e | Inr a \<Rightarrow> f a)"

fun efold :: "('a \<Rightarrow> 'b \<Rightarrow> error + 'b) \<Rightarrow> 'a list \<Rightarrow> 'b \<Rightarrow> error + 'b" where
  "efold f [] b = Inr b"
| "efold f (x # xs) b = ebind (f x b) (efold f xs)"

text \<open>
  Iteration over a \<^verbatim>\<open>std::set<StateId>\<close> or the keys of a
  \<^verbatim>\<open>std::map<StateId, State>\<close> is in ascending order; iteration over a
  \<^verbatim>\<open>std::set<char>\<close> is in ascending order of the signed \<^verbatim>\<open>char\<close>.
\<close>

definition ids_in_order :: "StateId set \<Rightarrow> StateId list" where
  "ids_in_order S = sorted_list_of_set S"

definition all_chars_in_order :: "char list" where
  "all_chars_in_order = map char_of ([128..<256] @ [0..<128::nat])"

definition symbols_in_order :: "Symbol set \<Rightarrow> Symbol list" where
  "symbols_in_order S = filter (\<lambda>c. c \<in> S) all_chars_in_order"

text \<open>
  \<open>renumberStates(offset)\<close>: the states get the ids \<open>offset, offset + 1, ...\<close> in the
  order of their old ids; \<^verbatim>\<open>mapping[x]\<close> on an id that is not a key yields 0.
\<close>

definition renumber_mapping :: "StateId list \<Rightarrow> StateId \<Rightarrow> StateId \<Rightarrow> StateId" where
  "renumber_mapping ids offset i =
     (case map_of (zip ids (map (\<lambda>k. offset + int k) [0..<length ids])) i of
        None \<Rightarrow> 0
      | Some j \<Rightarrow> j)"

definition NFA_renumberStates :: "StateId \<Rightarrow> NFA \<Rightarrow> NFA" where
  "NFA_renumberStates offset n =
     (let ids = ids_in_order (dom (n_states n));
          mapping = renumber_mapping ids offset;
          flags = (\<lambda>i. case n_states n i of
                          None \<Rightarrow> (False, False)
                        | Some s \<Rightarrow> (isAccepting s, isStart s))
      in \<lparr>n_states = map_of (map (\<lambda>i. (mapping i,
                          mkState (mapping i) [] (fst (flags i)) (snd (flags i)))) ids),
          n_transitions = map (\<lambda>t. mkTransition (mapping (t_from t)) (mapping (t_to t))
                                      (t_symbol t)) (n_transitions n),
          n_startState = mapping (n_startState n),
          n_acceptingStates = mapping ` {i \<in> set ids. fst (flags i)},
          n_nextStateId = offset + int (length ids)\<rparr>)"

definition NFA_createEmpty :: "error + NFA" where
  "NFA_createEmpty =
     (let (start, n1) = NFA_addState [] False NFA_new;
          (end, n2) = NFA_addState [] True n1
      in ebind (NFA_setStartState start n2) (NFA_addEpsilonTransition start end))"

definition NFA_createSingle :: "Symbol \<Rightarrow> error + NFA" where
  "NFA_createSingle s =
     (let (start, n1) = NFA_addState [] False NFA_new;
          (end, n2) = NFA_addState [] True n1
      in ebind (NFA_setStartState start n2) (NFA_addTransition start end s))"

text \<open>
  The copy loops \<^verbatim>\<open>result.states_.emplace(id, State(id, "", false, false))\<close>: a
  blank state for every id of the source automaton that the result does not have yet.
\<close>

definition copy_blank :: "StateId set \<Rightarrow> (StateId \<rightharpoonup> State) \<Rightarrow> (StateId \<rightharpoonup> State)" where
  "copy_blank ids st =
     (\<lambda>i. case st i of
             Some s \<Rightarrow> Some s
           | None \<Rightarrow> if i \<in> ids then Some (mkState i [] False False) else None)"

text \<open>\<^verbatim>\<open>result.states_.at(s).setAccepting(false)\<close>, which throws on a missing key.\<close>

definition clear_accepting :: "StateId \<Rightarrow> NFA \<Rightarrow> error + NFA" where
  "clear_accepting s n =
     (case n_states n s of
        None \<Rightarrow> Inl OutOfRange
      | Some st \<Rightarrow> Inr (n\<lparr>n_states := (n_states n)(s \<mapsto> st\<lparr>isAccepting := False\<rparr>)\<rparr>))"

text \<open>The new accepting end state, added directly to the map with the id \<open>states_.size()\<close>.\<close>

definition add_end_state :: "NFA \<Rightarrow> StateId \<times> NFA" where
  "add_end_state n =
     (let newEnd = int (msize (n_states n))
      in (newEnd,
          n\<lparr>n_states := emplace (n_states n) newEnd (mkState newEnd [] True False),
            n_acceptingStates := insert newEnd (n_acceptingStates n)\<rparr>))"

definition NFA_createUnion :: "NFA \<Rightarrow> NFA \<Rightarrow> error + NFA" where
  "NFA_createUnion a0 b0 =
     (let a = NFA_renumberStates 1 a0;
          b = NFA_renumberStates (1 + int (msize (n_states a))) b0;
          (newStart, r0) = NFA_addState [] False NFA_new
      in ebind (NFA_setStartState newStart r0) (\<lambda>r1.
           let r2 = r1\<lparr>n_states := copy_blank (dom (n_states a)) (n_states r1),
                       n_transitions := n_transitions r1 @ n_transitions a\<rparr>;
               r3 = r2\<lparr>n_states := copy_blank (dom (n_states b)) (n_states r2),
                       n_transitions := n_transitions r2 @ n_transitions b\<rparr>;
               (newEnd, r4) = add_end_state r3
           in ebind (NFA_addEpsilonTransition newStart (n_startState a) r4) (\<lambda>r5.
              ebind (NFA_addEpsilonTransition newStart (n_startState b) r5) (\<lambda>r6.
              ebind (efold (\<lambda>s r. ebind (clear_accepting s r)
                                      (NFA_addEpsilonTransition s newEnd))
                       (ids_in_order (n_acceptingStates a)) r6) (\<lambda>r7.
              ebind (efold (\<lambda>s r. ebind (clear_accepting s r)
                                      (NFA_addEpsilonTransition s newEnd))
                       (ids_in_order (n_acceptingStates b)) r7) (\<lambda>r8.
              Inr (r8\<lparr>n_nextStateId := newEnd + 1\<rparr>)))))))"

definition copy_flagged :: "(StateId \<rightharpoonup> State) \<Rightarrow> (StateId \<rightharpoonup> State) \<Rightarrow> (StateId \<rightharpoonup> State)" where
  "copy_flagged src st =
     (\<lambda>i. case st i of
             Some s \<Rightarrow> Some s
           | None \<Rightarrow> (case src i of
                        None \<Rightarrow> None
                      | Some s \<Rightarrow> Some (mkState i [] (isAccepting s) False)))"

definition NFA_createConcat :: "NFA \<Rightarrow> NFA \<Rightarrow> error + NFA" where
  "NFA_createConcat a b0 =
     (let b = NFA_renumberStates (int (msize (n_states a))) b0;
          r1 = a\<lparr>n_states := copy_flagged (n_states b) (n_states a),
                  n_acceptingStates := n_acceptingStates a
                     \<union> {i. \<exists>s. n_states b i = Some s \<and> isAccepting s},
                  n_transitions := n_transitions a @ n_transitions b\<rparr>
      in ebind (efold (\<lambda>s r. if s \<notin> n_acceptingStates b then
                                 ebind (clear_accepting s r)
                                   (NFA_addEpsilonTransition s (n_startState b))
                               else Inr r)
                  (ids_in_order (n_acceptingStates r1)) r1) (\<lambda>r2.
           Inr (r2\<lparr>n_acceptingStates := n_acceptingStates b,
                    n_nextStateId := int (msize (n_states r2))\<rparr>)))"

definition NFA_createStar :: "NFA \<Rightarrow> error + NFA" where
  "NFA_createStar a0 =
     (let a = NFA_renumberStates 1 a0;
          (newStart, r0) = NFA_addState [] False NFA_new
      in ebind (NFA_setStartState newStart r0) (\<lambda>r1.
           let r2 = r1\<lparr>n_states := copy_blank (dom (n_states a)) (n_states r1),
                       n_transitions := n_transitions r1 @ n_transitions a\<rparr>;
               (newEnd, r3) = add_end_state r2
           in ebind (NFA_addEpsilonTransition newStart (n_startState a) r3) (\<lambda>r4.
              ebind (NFA_addEpsilonTransition newStart newEnd r4) (\<lambda>r5.
              ebind (efold (\<lambda>s r. ebind (NFA_addEpsilonTransition s (n_startState a) r)
                                      (NFA_addEpsilonTransition s newEnd))
                       (ids_in_order (n_acceptingStates a)) r5) (\<lambda>r6.
              Inr (r6\<lparr>n_nextStateId := newEnd + 1\<rparr>))))))"

definition NFA_createPlus :: "NFA \<Rightarrow> error + NFA" where
  "NFA_createPlus a = ebind (NFA_createStar a) (NFA_createConcat a)"

definition NFA_createOptional :: "NFA \<Rightarrow> error + NFA" where
  "NFA_createOptional a0 =
     (let a = NFA_renumberStates 1 a0;
          (newStart, r0) = NFA_addState [] False NFA_new
      in ebind (NFA_setStartState newStart r0) (\<lambda>r1.
           let r2 = r1\<lparr>n_states := copy_blank (dom (n_states a)) (n_states r1),
                       n_transitions := n_transitions r1 @ n_transitions a\<rparr>;
               (newEnd, r3) = add_end_state r2
           in ebind (NFA_addEpsilonTransition newStart (n_startState a) r3) (\<lambda>r4.
              ebind (NFA_addEpsilonTransition newStart newEnd r4) (\<lambda>r5.
              ebind (efold (\<lambda>s r. NFA_addEpsilonTransition s newEnd r)
                       (ids_in_order (n_acceptingStates a)) r5) (\<lambda>r6.
              Inr (r6\<lparr>n_nextStateId := newEnd + 1\<rparr>))))))"

text \<open>
  \<open>buildNFA\<close>. Each call of \<open>buildNFA(node->children[0])\<close> in the loops of the
  \<open>REPEAT_N\<close> case builds the same automaton afresh, so the model builds it once.
\<close>

definition union_with_singles :: "error + NFA \<Rightarrow> Symbol list \<Rightarrow> error + NFA" where
  "union_with_singles r cs =
     foldl (\<lambda>acc c. ebind acc (\<lambda>res. ebind (NFA_createSingle c) (NFA_createUnion res))) r cs"

fun concat_times :: "nat \<Rightarrow> error + NFA \<Rightarrow> error + NFA \<Rightarrow> error + NFA" where
  "concat_times 0 piece r = r"
| "concat_times (Suc k) piece r =
     concat_times k piece (ebind r (\<lambda>res. ebind piece (NFA_createConcat res)))"

fun buildNFA :: "ASTNode \<Rightarrow> error + NFA" where
  "buildNFA EPSILON_NODE = NFA_createEmpty"
| "buildNFA (CHAR_NODE c) = NFA_createSingle c"
| "buildNFA ANY =
     union_with_singles (NFA_createSingle (CHR '' '')) (map char_of [33..<127::nat])"
| "buildNFA (CHAR_CLASS cs) =
     (case symbols_in_order cs of
        [] \<Rightarrow> NFA_createEmpty
      | c # rest \<Rightarrow> union_with_singles (NFA_createSingle c) rest)"
| "buildNFA (UNION l r) =
     ebind (buildNFA l) (\<lambda>a. ebind (buildNFA r) (\<lambda>b. NFA_createUnion a b))"
| "buildNFA (CONCAT l r) =
     ebind (buildNFA l) (\<lambda>a. ebind (buildNFA r) (\<lambda>b. NFA_createConcat a b))"
| "buildNFA (STAR x) = ebind (buildNFA x) NFA_createStar"
| "buildNFA (PLUS x) = ebind (buildNFA x) NFA_createPlus"
| "buildNFA (OPTIONAL x) = ebind (buildNFA x) NFA_createOptional"
| "buildNFA (GROUP x) = buildNFA x"
| "buildNFA START_ANCHOR = NFA_createEmpty"
| "buildNFA END_ANCHOR = NFA_createEmpty"
| "buildNFA (REPEAT_N x minRep maxRep) =
     (if minRep = 0 \<and> maxRep = 0 then NFA_createEmpty
      else ebind (buildNFA x) (\<lambda>child.
        let required = concat_times (nat minRep) (Inr child) NFA_createEmpty
        in if maxRep = - 1 then
             ebind required (\<lambda>res. ebind (NFA_createStar child) (NFA_createConcat res))
           else concat_times (nat (maxRep - minRep)) (NFA_createOptional child) required))"

text \<open>
  \<open>RegexParser::parse\<close>: \<open>Some (Inr nfa)\<close> when the pattern is accepted,
  \<open>Some (Inl e)\<close> when \<open>e\<close> is thrown, \<open>None\<close> when the call does not return.
\<close>

definition parse :: "string \<Rightarrow> (error + NFA) option" where
  "parse pat =
     (if pat = [] then Some NFA_createEmpty
      else
        (case parseUnion pat 0 of
           None \<Rightarrow> None
         | Some (Inl e) \<Rightarrow> Some (Inl e)
         | Some (Inr (ast, pos)) \<Rightarrow>
             if \<not> isAtEnd pat pos then
               Some (Inl (ParseException
                 (''Unexpected character at position '' @ to_string (int pos))))
             else Some (buildNFA ast)))"

section \<open>Subset construction (\<open>DFA::fromNFA\<close>)\<close>
















section \<open>Minimization (\<open>DFA::minimize\<close>)\<close>












section \<open>Well-formed automata\<close>


text \<open>One step of the subset run of an NFA, and the run itself.\<close>

definition nstep :: "NFA \<Rightarrow> StateId set \<Rightarrow> Symbol \<Rightarrow> StateId set" where
  "nstep n S c = NFA_epsilonClosure n (NFA_move n S c)"


section \<open>Partitions of the states and their stability\<close>










section \<open>Determinism of \<open>DFA::addTransition\<close>\<close>

lemma DFA_new_deterministic: "DFA_deterministic DFA_new"
  by (simp add: DFA_deterministic_def DFA_new_def)

lemma map_of_snoc_fresh:
  "k \<notin> fst ` set xs \<Longrightarrow> map_of (xs @ [(k, v)]) = (map_of xs)(k \<mapsto> v)"
  by (rule ext) (auto simp: map_add_def image_iff split: option.splits
      dest!: map_of_SomeD)

lemma DFA_addTransition_keeps_deterministic:
  assumes "DFA_deterministic d" and "DFA_addTransition f t s d = Inr d'"
  shows "DFA_deterministic d'"
proof -
  from assms(2) have fresh: "(f, s) \<notin> dom (transitionTable d)"
    and d': "d' = d\<lparr>transitions := transitions d @ [mkTransition f t s],
                  transitionTable := (transitionTable d)((f, s) \<mapsto> t),
                  alphabet := insert s (alphabet d)\<rparr>"
    by (auto simp: DFA_addTransition_def split: if_splits)
  let ?xs = "map (\<lambda>t. (t_key t, t_to t)) (transitions d)"
  from assms(1) have tab: "transitionTable d = map_of ?xs"
    and dist: "distinct (map t_key (transitions d))"
    by (simp_all add: DFA_deterministic_def)
  from fresh tab have nk: "(f, s) \<notin> fst ` set ?xs"
    by (simp add: dom_map_of_conv_image_fst)
  then have nk': "(f, s) \<notin> t_key ` set (transitions d)"
    by (simp add: image_image)
  have "map_of (?xs @ [((f, s), t)]) = (map_of ?xs)((f, s) \<mapsto> t)"
    using nk by (rule map_of_snoc_fresh)
  with tab dist nk' show ?thesis
    by (simp add: d' DFA_deterministic_def t_key_def mkTransition_def)
qed

text \<open>
  Claim C4. For a DFA whose states include \<open>from\<close> and \<open>to\<close>, \<open>addTransition\<close> raises
  (the "DFA already has transition" exception) if and only if the table already has an
  entry for \<open>(from, symbol)\<close>; otherwise it succeeds, appends the transition, records
  exactly \<open>(from, symbol) \<mapsto> to\<close> in the table and leaves every other entry alone; and it
  keeps the invariant that there is at most one transition per \<open>(from, symbol)\<close> pair.
\<close>

theorem DFA_addTransition_determinism:
  assumes "f \<in> dom (states d)" and "t \<in> dom (states d)"
  shows "((\<exists>e. DFA_addTransition f t s d = Inl e) \<longleftrightarrow> (f, s) \<in> dom (transitionTable d))
       \<and> ((f, s) \<in> dom (transitionTable d) \<longrightarrow>
            DFA_addTransition f t s d = Inl (AutomataException ''DFA already has transition''))
       \<and> ((f, s) \<notin> dom (transitionTable d) \<longrightarrow>
            (\<exists>d'. DFA_addTransition f t s d = Inr d'
               \<and> transitionTable d' = (transitionTable d)((f, s) \<mapsto> t)
               \<and> transitions d' = transitions d @ [mkTransition f t s]
               \<and> DFA_getNextState d' f s = Some t
               \<and> (DFA_deterministic d \<longrightarrow> DFA_deterministic d')))"
proof -
  from assms have ex: "states d f \<noteq> None" "states d t \<noteq> None"
    by auto
  show ?thesis
  proof (cases "(f, s) \<in> dom (transitionTable d)")
    case True
    with ex show ?thesis
      by (simp add: DFA_addTransition_def)
  next
    case False
    define d' where "d' = d\<lparr>transitions := transitions d @ [mkTransition f t s],
                  transitionTable := (transitionTable d)((f, s) \<mapsto> t),
                  alphabet := insert s (alphabet d)\<rparr>"
    from False ex have r: "DFA_addTransition f t s d = Inr d'"
      by (simp add: DFA_addTransition_def d'_def)
    have "DFA_deterministic d \<longrightarrow> DFA_deterministic d'"
      using r DFA_addTransition_keeps_deterministic by blast
    with False r show ?thesis
      by (simp add: d'_def DFA_getNextState_def)
  qed
qed

theorem DFA_addTransition_determinism_witness:
  "0 \<in> dom (states (snd (DFA_addState [] False DFA_new)))
   \<and> (\<exists>d'. DFA_addTransition 0 0 (CHR ''a'') (snd (DFA_addState [] False DFA_new)) = Inr d'
          \<and> DFA_getNextState d' 0 (CHR ''a'') = Some 0)"
proof -
  let ?d = "snd (DFA_addState [] False DFA_new)"
  have h: "0 \<in> dom (states ?d)"
    by (simp add: DFA_addState_def DFA_new_def emplace_def Let_def)
  have fresh: "(0, CHR ''a'') \<notin> dom (transitionTable ?d)"
    by (simp add: DFA_addState_def DFA_new_def emplace_def Let_def)
  from DFA_addTransition_determinism [OF h h, of "CHR ''a''"] fresh h
  show ?thesis by blast
qed

section \<open>Automata without a start state\<close>

lemma fresh_automata_have_no_start:
  "n_startState NFA_new = - 1 \<and> startState DFA_new = - 1 \<and> pda_startState PDA_new = - 1
   \<and> pda_startState (PDA_addTransition f t a b g PDA_new) = - 1"
  by (simp add: NFA_new_def DFA_new_def PDA_new_def PDA_addTransition_def)

text \<open>
  Claim C10. An automaton whose start id is negative (the \<open>-1\<close> of a freshly constructed
  automaton, to which no state was ever added) rejects every input: \<open>NFA::accepts\<close>,
  \<open>DFA::accepts\<close>, \<open>PDA::acceptsByFinalState\<close> and \<open>PDA::acceptsByEmptyStack\<close> return
  false, the two \<open>traceExecution\<close> functions return the empty trace and
  \<open>PDA::findAcceptingPath\<close> returns \<^verbatim>\<open>std::nullopt\<close>; none of them raises.
\<close>

theorem no_start_state_rejects:
  "(n_startState n < 0 \<longrightarrow> \<not> NFA_accepts n w \<and> NFA_traceExecution n w = [])
   \<and> (startState d < 0 \<longrightarrow> \<not> DFA_accepts d w \<and> DFA_traceExecution d w = [])
   \<and> (pda_startState p < 0 \<longrightarrow>
        \<not> PDA_acceptsByFinalState p w \<and> \<not> PDA_acceptsByEmptyStack p w
        \<and> PDA_findAcceptingPath p w = Some (Returns None))"
  by (simp add: NFA_accepts_def NFA_traceExecution_def DFA_accepts_def DFA_traceExecution_def
      PDA_acceptsByFinalState_def PDA_acceptsByEmptyStack_def PDA_findAcceptingPath_def)

theorem no_start_state_rejects_witness:
  "n_startState NFA_new < 0 \<and> startState DFA_new < 0 \<and> pda_startState PDA_new < 0
   \<and> \<not> NFA_accepts NFA_new ''ab'' \<and> NFA_traceExecution NFA_new ''ab'' = []
   \<and> \<not> DFA_accepts DFA_new ''ab'' \<and> DFA_traceExecution DFA_new ''ab'' = []
   \<and> \<not> PDA_acceptsByFinalState PDA_new ''ab'' \<and> \<not> PDA_acceptsByEmptyStack PDA_new ''ab''
   \<and> PDA_findAcceptingPath PDA_new ''ab'' = Some (Returns None)"
proof -
  have h: "n_startState NFA_new < 0" "startState DFA_new < 0" "pda_startState PDA_new < 0"
    by (simp_all add: NFA_new_def DFA_new_def PDA_new_def)
  from no_start_state_rejects [of NFA_new "''ab''" DFA_new PDA_new] h
  show ?thesis by simp
qed

section \<open>Validation of state ids\<close>

text \<open>
  The NFA and DFA mutators, and the PDA's \<open>setStartState\<close> and \<open>setAcceptingState\<close>,
  refuse an id with no state by raising \<open>InvalidStateException\<close> before they change
  anything.
\<close>

lemma NFA_mutators_validate:
  assumes "n_states n i = None"
  shows "NFA_setStartState i n = Inl (InvalidStateException i)"
    and "NFA_setAcceptingState i acc n = Inl (InvalidStateException i)"
    and "NFA_addTransition i t s n = Inl (InvalidStateException i)"
    and "n_states n f \<noteq> None \<Longrightarrow> NFA_addTransition f i s n = Inl (InvalidStateException i)"
  using assms
  by (auto simp: NFA_setStartState_def NFA_setAcceptingState_def NFA_addTransition_def)

lemma DFA_mutators_validate:
  assumes "states d i = None"
  shows "DFA_setStartState i d = Inl (InvalidStateException i)"
    and "DFA_setAcceptingState i acc d = Inl (InvalidStateException i)"
    and "DFA_addTransition i t s d = Inl (InvalidStateException i)"
    and "states d f \<noteq> None \<Longrightarrow> DFA_addTransition f i s d = Inl (InvalidStateException i)"
  using assms
  by (auto simp: DFA_setStartState_def DFA_setAcceptingState_def DFA_addTransition_def)

lemma PDA_state_mutators_validate:
  assumes "pda_states p i = None"
  shows "PDA_setStartState i p = Inl (InvalidStateException i)"
    and "PDA_setAcceptingState i acc p = Inl (InvalidStateException i)"
  using assms
  by (simp_all add: PDA_setStartState_def PDA_setAcceptingState_def)

text \<open>
  Claim C8 (the code departs from it). \<open>PDA::addTransition\<close> validates neither id: on a
  freshly constructed PDA, which has no state at all, \<open>addTransition(5, 7, 'a', EPSILON, "")\<close>
  raises nothing and stores a transition between the states 5 and 7, which do not exist.
\<close>

theorem PDA_addTransition_accepts_unknown_states:
  "pda_states PDA_new 5 = None \<and> pda_states PDA_new 7 = None
   \<and> PDA_addTransition 5 7 (CHR ''a'') EPSILON [] PDA_new \<noteq> PDA_new
   \<and> pda_transitions (PDA_addTransition 5 7 (CHR ''a'') EPSILON [] PDA_new) =
       [\<lparr>pt_from = 5, pt_to = 7, pt_inputSymbol = CHR ''a'', pt_popSymbol = EPSILON,
         pt_pushSymbols = []\<rparr>]"
proof -
  have "pda_transitions (PDA_addTransition 5 7 (CHR ''a'') EPSILON [] PDA_new)
          \<noteq> pda_transitions PDA_new"
    by (simp add: PDA_addTransition_def PDA_new_def)
  then have "PDA_addTransition 5 7 (CHR ''a'') EPSILON [] PDA_new \<noteq> PDA_new"
    by metis
  then show ?thesis
    by (simp add: PDA_addTransition_def PDA_new_def)
qed

section \<open>Start flags\<close>

text \<open>
  Claim C6 (the code departs from it). After \<open>addState\<close>, \<open>addState\<close>, \<open>setStartState(1)\<close>
  a PDA has two states with the start flag set: state 0, flagged when it was added as the
  first state, and state 1, flagged by \<open>setStartState\<close>. The same calls on an NFA or a
  DFA leave state 1 as the only flagged state.
\<close>

theorem PDA_setStartState_leaves_two_start_flags:
  "\<exists>p s0 s1.
     PDA_setStartState 1 (snd (PDA_addState [] False (snd (PDA_addState [] False PDA_new))))
       = Inr p
     \<and> pda_startState p = 1
     \<and> pda_states p 0 = Some s0 \<and> isStart s0
     \<and> pda_states p 1 = Some s1 \<and> isStart s1"
  by (simp add: PDA_setStartState_def PDA_addState_def PDA_new_def emplace_def msize_def
      mkState_def Let_def)

lemma NFA_setStartState_clears_old_flag:
  "\<exists>n s0 s1.
     NFA_setStartState 1 (snd (NFA_addState [] False (snd (NFA_addState [] False NFA_new))))
       = Inr n
     \<and> n_startState n = 1
     \<and> n_states n 0 = Some s0 \<and> \<not> isStart s0
     \<and> n_states n 1 = Some s1 \<and> isStart s1"
  by (simp add: NFA_setStartState_def NFA_addState_def NFA_new_def emplace_def msize_def
      mkState_def Let_def)

lemma DFA_setStartState_clears_old_flag:
  "\<exists>d s0 s1.
     DFA_setStartState 1 (snd (DFA_addState [] False (snd (DFA_addState [] False DFA_new))))
       = Inr d
     \<and> startState d = 1
     \<and> states d 0 = Some s0 \<and> \<not> isStart s0
     \<and> states d 1 = Some s1 \<and> isStart s1"
  by (simp add: DFA_setStartState_def DFA_addState_def DFA_new_def emplace_def msize_def
      mkState_def Let_def)

section \<open>All matches of a DFA in a text\<close>

definition match_before :: "nat \<times> nat \<Rightarrow> nat \<times> nat \<Rightarrow> bool" where
  "match_before a b \<longleftrightarrow> fst a < fst b \<or> (fst a = fst b \<and> snd a < snd b)"

lemma sorted_wrt_appendI:
  "sorted_wrt P xs \<Longrightarrow> sorted_wrt P ys \<Longrightarrow> (\<And>x y. x \<in> set xs \<Longrightarrow> y \<in> set ys \<Longrightarrow> P x y)
     \<Longrightarrow> sorted_wrt P (xs @ ys)"
  by (simp add: sorted_wrt_append)

lemma matches_inner_set:
  "set (matches_inner d i j current cs) =
     {(i, j + k + 1) | k. k < length cs \<and>
        (\<exists>q. DFA_walk d current (take (k + 1) cs) = Some q \<and> q \<in> acceptingStates d)}"
proof (induction cs arbitrary: j current)
  case Nil
  then show ?case by simp
next
  case (Cons c cs)
  show ?case
  proof (cases "DFA_getNextState d current c")
    case None
    then show ?thesis by simp
  next
    case (Some nxt)
    let ?R = "\<lambda>j current cs. {(i, j + k + 1) | k. k < length cs \<and>
        (\<exists>q. DFA_walk d current (take (k + 1) cs) = Some q \<and> q \<in> acceptingStates d)}"
    have split: "?R j current (c # cs) =
        (if nxt \<in> acceptingStates d then {(i, j + 1)} else {}) \<union> ?R (j + 1) nxt cs"
    proof (rule set_eqI, rule iffI)
      fix x assume "x \<in> ?R j current (c # cs)"
      then obtain k q where k: "x = (i, j + k + 1)" "k < length (c # cs)"
        "DFA_walk d current (take (k + 1) (c # cs)) = Some q" "q \<in> acceptingStates d"
        by blast
      show "x \<in> (if nxt \<in> acceptingStates d then {(i, j + 1)} else {}) \<union> ?R (j + 1) nxt cs"
      proof (cases k)
        case 0
        with k Some show ?thesis by simp
      next
        case (Suc k')
        with k Some have "k' < length cs"
          "DFA_walk d nxt (take (k' + 1) cs) = Some q" "x = (i, (j + 1) + k' + 1)"
          by simp_all
        with k(4) show ?thesis by blast
      qed
    next
      fix x
      assume "x \<in> (if nxt \<in> acceptingStates d then {(i, j + 1)} else {}) \<union> ?R (j + 1) nxt cs"
      then consider (a) "nxt \<in> acceptingStates d" "x = (i, j + 1)"
        | (b) "x \<in> ?R (j + 1) nxt cs"
        by (auto split: if_splits)
      then show "x \<in> ?R j current (c # cs)"
      proof cases
        case a
        have "0 < length (c # cs)" by simp
        moreover have "DFA_walk d current (take (0 + 1) (c # cs)) = Some nxt"
          using Some by simp
        ultimately have "x = (i, j + 0 + 1) \<and> 0 < length (c # cs)
            \<and> (\<exists>q. DFA_walk d current (take (0 + 1) (c # cs)) = Some q \<and> q \<in> acceptingStates d)"
          using a by simp
        then show ?thesis by blast
      next
        case b
        then obtain k q where k: "x = (i, (j + 1) + k + 1)" "k < length cs"
          "DFA_walk d nxt (take (k + 1) cs) = Some q" "q \<in> acceptingStates d"
          by blast
        then have "Suc k < length (c # cs)"
          "DFA_walk d current (take (Suc k + 1) (c # cs)) = Some q"
          "x = (i, j + Suc k + 1)"
          using Some by simp_all
        with k(4) show ?thesis by blast
      qed
    qed
    have "set (matches_inner d i j current (c # cs)) =
        (if nxt \<in> acceptingStates d then {(i, j + 1)} else {})
          \<union> set (matches_inner d i (j + 1) nxt cs)"
      using Some by simp
    also have "\<dots> = (if nxt \<in> acceptingStates d then {(i, j + 1)} else {}) \<union> ?R (j + 1) nxt cs"
      using Cons.IH [of "j + 1" nxt] by simp
    finally show ?thesis using split by simp
  qed
qed

lemma matches_inner_bounds:
  "x \<in> set (matches_inner d i j current cs) \<Longrightarrow> fst x = i \<and> j < snd x"
  by (auto simp: matches_inner_set)

lemma matches_inner_sorted: "sorted_wrt match_before (matches_inner d i j current cs)"
proof (induction cs arbitrary: j current)
  case Nil
  then show ?case by simp
next
  case (Cons c cs)
  show ?case
  proof (cases "DFA_getNextState d current c")
    case None
    then show ?thesis by simp
  next
    case (Some nxt)
    have later: "\<forall>y\<in>set (matches_inner d i (j + 1) nxt cs). match_before (i, j + 1) y"
      using matches_inner_bounds [of _ d i "j + 1" nxt cs]
      by (auto simp: match_before_def)
    with Some Cons.IH [of "j + 1" nxt] show ?thesis
      by (simp add: sorted_wrt_append)
  qed
qed

lemma matches_outer_set:
  "set (matches_outer d i tx) =
     {(i + a, i + a) | a. a < length tx \<and> startState d \<in> acceptingStates d}
     \<union> {(i + a, i + a + k + 1) | a k. a + k < length tx \<and>
          (\<exists>q. DFA_walk d (startState d) (take (k + 1) (drop a tx)) = Some q
               \<and> q \<in> acceptingStates d)}"
  (is "_ = ?Z i tx \<union> ?M i tx")
proof (induction tx arbitrary: i)
  case Nil
  then show ?case by simp
next
  case (Cons c cs)
  have Z: "?Z i (c # cs) =
      (if startState d \<in> acceptingStates d then {(i, i)} else {}) \<union> ?Z (i + 1) cs"
  proof (rule set_eqI, rule iffI)
    fix x assume "x \<in> ?Z i (c # cs)"
    then obtain a where a: "x = (i + a, i + a)" "a < length (c # cs)"
      "startState d \<in> acceptingStates d" by blast
    show "x \<in> (if startState d \<in> acceptingStates d then {(i, i)} else {}) \<union> ?Z (i + 1) cs"
    proof (cases a)
      case 0
      with a show ?thesis by simp
    next
      case (Suc a')
      with a have "x = ((i + 1) + a', (i + 1) + a')" "a' < length cs" by simp_all
      with a(3) show ?thesis by blast
    qed
  next
    fix x
    assume "x \<in> (if startState d \<in> acceptingStates d then {(i, i)} else {}) \<union> ?Z (i + 1) cs"
    then consider (h) "startState d \<in> acceptingStates d" "x = (i, i)"
      | (t) "x \<in> ?Z (i + 1) cs" by (auto split: if_splits)
    then show "x \<in> ?Z i (c # cs)"
    proof cases
      case h
      have "x = (i + 0, i + 0)" "0 < length (c # cs)" using h by simp_all
      with h(1) show ?thesis by blast
    next
      case t
      then obtain a where "x = ((i + 1) + a, (i + 1) + a)" "a < length cs"
        "startState d \<in> acceptingStates d" by blast
      then have "x = (i + Suc a, i + Suc a)" "Suc a < length (c # cs)"
        "startState d \<in> acceptingStates d" by simp_all
      then show ?thesis by blast
    qed
  qed
  have M: "?M i (c # cs) = set (matches_inner d i i (startState d) (c # cs)) \<union> ?M (i + 1) cs"
  proof (rule set_eqI, rule iffI)
    fix x assume "x \<in> ?M i (c # cs)"
    then obtain a k q where ak: "x = (i + a, i + a + k + 1)" "a + k < length (c # cs)"
      "DFA_walk d (startState d) (take (k + 1) (drop a (c # cs))) = Some q"
      "q \<in> acceptingStates d" by blast
    show "x \<in> set (matches_inner d i i (startState d) (c # cs)) \<union> ?M (i + 1) cs"
    proof (cases a)
      case 0
      with ak have "x = (i, i + k + 1)" "k < length (c # cs)"
        "DFA_walk d (startState d) (take (k + 1) (c # cs)) = Some q" by simp_all
      with ak(4) have "x \<in> set (matches_inner d i i (startState d) (c # cs))"
        unfolding matches_inner_set by blast
      then show ?thesis by blast
    next
      case (Suc a')
      with ak have "x = ((i + 1) + a', (i + 1) + a' + k + 1)" "a' + k < length cs"
        "DFA_walk d (startState d) (take (k + 1) (drop a' cs)) = Some q" by simp_all
      with ak(4) show ?thesis by blast
    qed
  next
    fix x
    assume "x \<in> set (matches_inner d i i (startState d) (c # cs)) \<union> ?M (i + 1) cs"
    then consider (h) "x \<in> set (matches_inner d i i (startState d) (c # cs))"
      | (t) "x \<in> ?M (i + 1) cs" by blast
    then show "x \<in> ?M i (c # cs)"
    proof cases
      case h
      then obtain k q where "x = (i, i + k + 1)" "k < length (c # cs)"
        "DFA_walk d (startState d) (take (k + 1) (c # cs)) = Some q" "q \<in> acceptingStates d"
        unfolding matches_inner_set by blast
      then have "x = (i + 0, i + 0 + k + 1)" "0 + k < length (c # cs)"
        "DFA_walk d (startState d) (take (k + 1) (drop 0 (c # cs))) = Some q"
        "q \<in> acceptingStates d" by simp_all
      then show ?thesis by blast
    next
      case t
      then obtain a k q where "x = ((i + 1) + a, (i + 1) + a + k + 1)" "a + k < length cs"
        "DFA_walk d (startState d) (take (k + 1) (drop a cs)) = Some q"
        "q \<in> acceptingStates d" by blast
      then have "x = (i + Suc a, i + Suc a + k + 1)" "Suc a + k < length (c # cs)"
        "DFA_walk d (startState d) (take (k + 1) (drop (Suc a) (c # cs))) = Some q"
        "q \<in> acceptingStates d" by simp_all
      then show ?thesis by blast
    qed
  qed
  have "set (matches_outer d i (c # cs)) =
      (if startState d \<in> acceptingStates d then {(i, i)} else {})
      \<union> set (matches_inner d i i (startState d) (c # cs))
      \<union> set (matches_outer d (i + 1) cs)"
    by auto
  also have "\<dots> = (if startState d \<in> acceptingStates d then {(i, i)} else {})
      \<union> set (matches_inner d i i (startState d) (c # cs))
      \<union> (?Z (i + 1) cs \<union> ?M (i + 1) cs)"
    using Cons.IH [of "i + 1"] by simp
  also have "\<dots> = ?Z i (c # cs) \<union> ?M i (c # cs)"
    unfolding Z M by blast
  finally show ?case .
qed

lemma matches_outer_from: "x \<in> set (matches_outer d i tx) \<Longrightarrow> i \<le> fst x"
  by (auto simp: matches_outer_set)

lemma matches_outer_sorted: "sorted_wrt match_before (matches_outer d i tx)"
proof (induction tx arbitrary: i)
  case Nil
  then show ?case by simp
next
  case (Cons c cs)
  let ?z = "if startState d \<in> acceptingStates d then [(i, i)] else []"
  let ?inner = "matches_inner d i i (startState d) (c # cs)"
  let ?rest = "matches_outer d (i + 1) cs"
  have z_inner: "\<forall>x\<in>set ?z. \<forall>y\<in>set ?inner. match_before x y"
    using matches_inner_bounds [of _ d i i "startState d" "c # cs"]
    by (auto simp: match_before_def)
  have z_rest: "\<forall>x\<in>set ?z. \<forall>y\<in>set ?rest. match_before x y"
    using matches_outer_from [of _ d "i + 1" cs]
    by (fastforce simp: match_before_def)
  have inner_rest: "\<forall>x\<in>set ?inner. \<forall>y\<in>set ?rest. match_before x y"
    using matches_outer_from [of _ d "i + 1" cs]
      matches_inner_bounds [of _ d i i "startState d" "c # cs"]
    by (fastforce simp: match_before_def)
  have sz: "sorted_wrt match_before ?z" by simp
  have ir: "sorted_wrt match_before (?inner @ ?rest)"
  proof (rule sorted_wrt_appendI)
    show "sorted_wrt match_before ?inner"
      by (rule matches_inner_sorted)
    show "sorted_wrt match_before ?rest"
      by (rule Cons.IH)
    fix x y
    assume "x \<in> set ?inner" "y \<in> set ?rest"
    with inner_rest show "match_before x y" by blast
  qed
  have "sorted_wrt match_before (?z @ ?inner @ ?rest)"
  proof (rule sorted_wrt_appendI)
    show "sorted_wrt match_before ?z" by (rule sz)
    show "sorted_wrt match_before (?inner @ ?rest)" by (rule ir)
    fix x y
    assume "x \<in> set ?z" "y \<in> set (?inner @ ?rest)"
    with z_inner z_rest show "match_before x y"
      by (simp only: set_append Un_iff) blast
  qed
  then show ?case by simp
qed

text \<open>
  Claim C2. \<open>findAllMatches(text)\<close> contains \<open>(i, j+1)\<close> exactly when \<open>i \<le> j\<close> are
  indices of the text and the walk from the start state over \<open>text[i..j]\<close> stays defined
  and ends in an accepting state; it contains \<open>(i, i)\<close> exactly when \<open>i\<close> is an index of
  the text and the start state is accepting; it contains nothing else; and the list is
  strictly ascending by start position and, for equal starts, by end position.
\<close>

theorem DFA_findAllMatches_correct:
  "((i, e) \<in> set (DFA_findAllMatches d tx) \<longleftrightarrow>
      i < length tx \<and>
      ((e = i \<and> startState d \<in> acceptingStates d)
       \<or> (\<exists>j q. i \<le> j \<and> j < length tx \<and> e = j + 1
            \<and> DFA_walk d (startState d) (take (j + 1 - i) (drop i tx)) = Some q
            \<and> q \<in> acceptingStates d)))
   \<and> sorted_wrt match_before (DFA_findAllMatches d tx)"
proof -
  have "(i, e) \<in> set (matches_outer d 0 tx) \<longleftrightarrow>
      i < length tx \<and>
      ((e = i \<and> startState d \<in> acceptingStates d)
       \<or> (\<exists>j q. i \<le> j \<and> j < length tx \<and> e = j + 1
            \<and> DFA_walk d (startState d) (take (j + 1 - i) (drop i tx)) = Some q
            \<and> q \<in> acceptingStates d))"
    (is "?L \<longleftrightarrow> ?R")
  proof
    assume ?L
    then consider (z) "i < length tx" "e = i" "startState d \<in> acceptingStates d"
      | (m) k q where "e = i + k + 1" "i + k < length tx"
          "DFA_walk d (startState d) (take (k + 1) (drop i tx)) = Some q"
          "q \<in> acceptingStates d"
      unfolding matches_outer_set by auto
    then show ?R
    proof cases
      case z
      then show ?thesis by simp
    next
      case m
      then have "i \<le> i + k" "i + k < length tx" "e = (i + k) + 1"
        "DFA_walk d (startState d) (take ((i + k) + 1 - i) (drop i tx)) = Some q"
        by simp_all
      with m(4) show ?thesis by (metis le_add1 less_le_trans linorder_not_less)
    qed
  next
    assume r: ?R
    then have il: "i < length tx" by simp
    from r consider (z) "e = i" "startState d \<in> acceptingStates d"
      | (m) j q where "i \<le> j" "j < length tx" "e = j + 1"
          "DFA_walk d (startState d) (take (j + 1 - i) (drop i tx)) = Some q"
          "q \<in> acceptingStates d"
      by blast
    then show ?L
    proof cases
      case z
      with il have "(i, e) = (0 + i, 0 + i)" "i < length tx" by simp_all
      with z(2) show ?thesis unfolding matches_outer_set by blast
    next
      case m
      define k where "k = j - i"
      with m have "(i, e) = (0 + i, 0 + i + k + 1)" "i + k < length tx"
        "DFA_walk d (startState d) (take (k + 1) (drop i tx)) = Some q"
        by (simp_all add: Suc_diff_le)
      with m(5) show ?thesis unfolding matches_outer_set by blast
    qed
  qed
  then show ?thesis
    by (simp add: DFA_findAllMatches_def matches_outer_sorted)
qed


lemma loop_a_DFA_built:
  "DFA_addTransition 0 0 (CHR ''a'') (snd (DFA_addState [] True DFA_new)) = Inr loop_a_DFA"
  by (simp add: DFA_addTransition_def DFA_addState_def DFA_new_def loop_a_DFA_def emplace_def
      msize_def Let_def)

theorem DFA_findAllMatches_correct_witness:
  "(0, 2) \<in> set (DFA_findAllMatches loop_a_DFA ''aab'')
   \<and> (0, 3) \<notin> set (DFA_findAllMatches loop_a_DFA ''aab'')
   \<and> sorted_wrt match_before (DFA_findAllMatches loop_a_DFA ''aab'')"
proof -
  have "(0, 2) \<in> set (DFA_findAllMatches loop_a_DFA ''aab'')"
    using DFA_findAllMatches_correct [of 0 2 loop_a_DFA "''aab''"]
    by (simp add: numeral_2_eq_2 DFA_getNextState_def loop_a_DFA_def)
  moreover have "(0, 3) \<notin> set (DFA_findAllMatches loop_a_DFA ''aab'')"
    using DFA_findAllMatches_correct [of 0 3 loop_a_DFA "''aab''"]
    by (auto simp: numeral_3_eq_3 DFA_getNextState_def loop_a_DFA_def)
  moreover have "sorted_wrt match_before (DFA_findAllMatches loop_a_DFA ''aab'')"
    using DFA_findAllMatches_correct [of 0 0 loop_a_DFA "''aab''"] by blast
  ultimately show ?thesis by blast
qed

section \<open>The iteration cap of the PDA search\<close>

lemma PDA_dequeued_length: "length (PDA_dequeued acc p k bfs visited) \<le> k"
  by (induction acc p k bfs visited rule: PDA_dequeued.induct) simp_all

lemma PDA_search_iff_dequeued:
  "(\<And>c. config_key c \<in> visited \<Longrightarrow> \<not> acc c) \<Longrightarrow>
     PDA_search acc p k bfs visited = list_ex acc (PDA_dequeued acc p k bfs visited)"
proof (induction acc p k bfs visited rule: PDA_search.induct)
  case (1 acc p maxIterations visited)
  then show ?case by simp
next
  case (2 acc p current bfs visited)
  then show ?case by simp
next
  case (3 acc p k current bfs visited)
  show ?case
  proof (cases "config_key current \<in> visited")
    case True
    with "3.prems" have "\<not> acc current" by blast
    with True "3.IH"(1) "3.prems" show ?thesis by simp
  next
    case False
    show ?thesis
    proof (cases "acc current")
      case True
      with False show ?thesis by simp
    next
      case nacc: False
      have "\<And>c. config_key c \<in> insert (config_key current) visited \<Longrightarrow> \<not> acc c"
      proof -
        fix c assume "config_key c \<in> insert (config_key current) visited"
        then consider "config_key c = config_key current" | "config_key c \<in> visited" by blast
        then show "\<not> acc c"
        proof cases
          case 1
          then have "c = current" by (simp add: config_key_def)
          with nacc show ?thesis by simp
        next
          case 2
          with "3.prems" show ?thesis by blast
        qed
      qed
      with False nacc "3.IH"(2) show ?thesis by simp
    qed
  qed
qed

lemma loop_PDA_fields:
  "pda_transitions loop_PDA = [loop_t]" "pda_startState loop_PDA = 0"
  "pda_acceptingStates loop_PDA = {}" "PDA_initial loop_PDA [] = loop_cfg 0"
  by (simp_all add: loop_PDA_def loop_t_def PDA_addTransition_def PDA_addState_def PDA_new_def
      PDA_initial_def loop_cfg_def emplace_def msize_def Let_def)

lemma loop_fire: "PDA_fire (loop_cfg k) loop_t = Some (loop_cfg (Suc k))"
  by (simp add: PDA_fire_def loop_cfg_def loop_t_def replicate_append_same)

lemma loop_step: "PDA_step loop_PDA (loop_cfg k) = [loop_cfg (Suc k)]"
  by (simp add: PDA_step_def loop_PDA_fields List.map_filter_simps loop_fire)

lemma loop_key_fresh: "config_key (loop_cfg k) \<notin> config_key ` loop_cfg ` {..<k}"
proof
  assume "config_key (loop_cfg k) \<in> config_key ` loop_cfg ` {..<k}"
  then obtain j where "j < k" "config_key (loop_cfg k) = config_key (loop_cfg j)" by auto
  then have "length (replicate k (CHR ''A'')) = length (replicate j (CHR ''A''))"
    by (simp add: config_key_def loop_cfg_def)
  with \<open>j < k\<close> show False by simp
qed

lemma loop_not_final: "\<not> final_state_test loop_PDA c"
  by (simp add: final_state_test_def loop_PDA_fields)

lemma loop_dequeued_length:
  "length (PDA_dequeued (final_state_test loop_PDA) loop_PDA n [loop_cfg k]
             (config_key ` loop_cfg ` {..<k})) = n"
proof (induction n arbitrary: k)
  case 0
  then show ?case by simp
next
  case (Suc n)
  have "insert (config_key (loop_cfg k)) (config_key ` loop_cfg ` {..<k})
          = config_key ` loop_cfg ` {..<Suc k}"
    by (simp add: lessThan_Suc)
  with Suc [of "Suc k"] show ?case
    by (simp add: loop_key_fresh loop_not_final loop_step)
qed

text \<open>
  The two boolean entry points carry the counter \<^verbatim>\<open>maxIterations = 10000\<close>:
  \<open>acceptsByFinalState\<close> and \<open>acceptsByEmptyStack\<close> dequeue at most 10,000
  configurations, and each returns true exactly when the PDA has a start state and one of
  the configurations it dequeued passes its acceptance test; so when the cap is exhausted
  without finding an accepting configuration they return false.
\<close>

lemma PDA_boolean_search_capped:
  "length (PDA_dequeued (final_state_test p) p 10000 [PDA_initial p w] {}) \<le> 10000
   \<and> PDA_acceptsByFinalState p w =
       (0 \<le> pda_startState p
        \<and> list_ex (final_state_test p)
             (PDA_dequeued (final_state_test p) p 10000 [PDA_initial p w] {}))
   \<and> length (PDA_dequeued empty_stack_test p 10000 [PDA_initial p w] {}) \<le> 10000
   \<and> PDA_acceptsByEmptyStack p w =
       (0 \<le> pda_startState p
        \<and> list_ex empty_stack_test
             (PDA_dequeued empty_stack_test p 10000 [PDA_initial p w] {}))"
proof -
  have f: "PDA_search (final_state_test p) p 10000 [PDA_initial p w] {} =
      list_ex (final_state_test p)
        (PDA_dequeued (final_state_test p) p 10000 [PDA_initial p w] {})"
    by (rule PDA_search_iff_dequeued) simp
  have e: "PDA_search empty_stack_test p 10000 [PDA_initial p w] {} =
      list_ex empty_stack_test (PDA_dequeued empty_stack_test p 10000 [PDA_initial p w] {})"
    by (rule PDA_search_iff_dequeued) simp
  show ?thesis
    unfolding PDA_acceptsByFinalState_def PDA_acceptsByEmptyStack_def f e
    using PDA_dequeued_length [of "final_state_test p" p 10000 "[PDA_initial p w]" "{}"]
      PDA_dequeued_length [of empty_stack_test p 10000 "[PDA_initial p w]" "{}"]
    by auto
qed

text \<open>
  On \<open>loop_PDA\<close> the loop of \<open>findAcceptingPath\<close> never stops: after \<open>k\<close> passes the
  node vector holds the configurations with stacks \<open>$\<close>, \<open>$A\<close>, ..., \<open>$A^k\<close>, the queue
  holds the index \<open>k\<close> alone, and the next pass appends node \<open>k + 1\<close>. The PDA has one
  transition, so no pass reads \<open>current\<close> after its \<^verbatim>\<open>push_back\<close>.
\<close>

lemma loop_expand:
  "\<exists>c d. foldl (path_expand (loop_cfg k) k)
       (Returns \<lparr>x_nodes = map loop_node [0..<Suc k], x_capacity = capacity, x_bfs = [],
                  x_dangling = False\<rparr>)
       (pda_transitions loop_PDA)
     = Returns \<lparr>x_nodes = map loop_node [0..<Suc (Suc k)], x_capacity = c, x_bfs = [Suc k],
                 x_dangling = d\<rparr>"
  by (simp add: loop_PDA_fields path_expand_def loop_fire loop_node_def)

lemma loop_path_diverges_aux:
  assumes "PDA_path_loop p nodes capacity bfs visited = Some y"
  shows "\<not> loop_state p nodes capacity bfs visited"
proof (rule PDA_path_loop.raw_induct
    [where P = "\<lambda>p nodes capacity bfs visited y. \<not> loop_state p nodes capacity bfs visited",
      OF _ assms],
    goal_cases)
  case (1 f p nodes capacity bfs visited y)
  show ?case
  proof
    assume "loop_state p nodes capacity bfs visited"
    then obtain k where p: "p = loop_PDA" and n: "nodes = map loop_node [0..<Suc k]"
      and b: "bfs = [k]" and v: "visited = config_key ` loop_cfg ` {..<k}"
      unfolding loop_state_def by blast
    have len: "\<not> length nodes \<le> k" by (simp add: n)
    have at: "nodes ! k = loop_node k"
      by (simp add: n nth_append)
    have cfg: "pn_config (nodes ! k) = loop_cfg k"
      by (simp add: at loop_node_def)
    from loop_expand [of k capacity] obtain c d where
      exp: "foldl (path_expand (loop_cfg k) k)
          (Returns \<lparr>x_nodes = nodes, x_capacity = capacity, x_bfs = [], x_dangling = False\<rparr>)
          (pda_transitions loop_PDA)
        = Returns \<lparr>x_nodes = map loop_node [0..<Suc (Suc k)], x_capacity = c,
                    x_bfs = [Suc k], x_dangling = d\<rparr>"
      unfolding n by blast
    from "1"(2) have
      "f loop_PDA (map loop_node [0..<Suc (Suc k)]) c [Suc k]
         (config_key ` loop_cfg ` {..<Suc k}) = Some y"
      unfolding p b v
      by (simp add: len cfg loop_key_fresh loop_not_final exp lessThan_Suc del: upt_Suc)
    from "1"(1) [OF this] show False
      unfolding loop_state_def by blast
  qed
qed

lemma loop_path_diverges: "PDA_findAcceptingPath loop_PDA [] = None"
proof (cases "PDA_findAcceptingPath loop_PDA []")
  case None
  then show ?thesis .
next
  case (Some y)
  have init: "[\<lparr>pn_config = PDA_initial loop_PDA [], pn_transition = None, pn_parent = - 1\<rparr>]
      = map loop_node [0..<Suc 0]"
    by (simp add: loop_node_def loop_PDA_fields)
  from Some have "PDA_path_loop loop_PDA (map loop_node [0..<Suc 0]) 1 [0]
      (config_key ` loop_cfg ` {..<0}) = Some y"
    unfolding PDA_findAcceptingPath_def init by (simp add: loop_PDA_fields)
  from loop_path_diverges_aux [OF this] show ?thesis
    unfolding loop_state_def by blast
qed

text \<open>
  With a second transition in the list the first pass already reads \<open>current\<close> after
  the reallocation: the vector holds one node and has capacity 1 when the first
  transition pushes its successor.
\<close>

lemma two_PDA_dangling_read: "PDA_findAcceptingPath two_PDA ''a'' = Some Undefined"
proof -
  have t: "pda_transitions two_PDA =
      [\<lparr>pt_from = 0, pt_to = 0, pt_inputSymbol = CHR ''a'', pt_popSymbol = EPSILON,
         pt_pushSymbols = ''A''\<rparr>,
       \<lparr>pt_from = 0, pt_to = 0, pt_inputSymbol = CHR ''b'', pt_popSymbol = EPSILON,
         pt_pushSymbols = []\<rparr>]"
    and s: "pda_startState two_PDA = 0" and a: "pda_acceptingStates two_PDA = {}"
    by (simp_all add: two_PDA_def PDA_addTransition_def PDA_addState_def PDA_new_def
        emplace_def msize_def Let_def)
  show ?thesis
    unfolding PDA_findAcceptingPath_def
    by (subst PDA_path_loop.simps)
      (simp add: t s a PDA_initial_def final_state_test_def path_expand_def PDA_fire_def
        EPSILON_def)
qed

text \<open>
  Claim C3 (the code departs from it). The claim asks every PDA search entry point to
  stop at the cap of 10,000 iterations. \<open>findAcceptingPath\<close> runs the same search as
  \<open>acceptsByFinalState\<close>, with the same queue and the same visited set, but its loop
  \<^verbatim>\<open>while (!bfs.empty())\<close> lacks the counter: on \<open>loop_PDA\<close> with the empty input
  \<open>acceptsByFinalState\<close> uses all of its 10,000 dequeues and returns false, and
  \<open>findAcceptingPath\<close> never returns.
\<close>

theorem PDA_findAcceptingPath_has_no_cap:
  "length (PDA_dequeued (final_state_test loop_PDA) loop_PDA 10000
             [PDA_initial loop_PDA []] {}) = 10000
   \<and> \<not> PDA_acceptsByFinalState loop_PDA []
   \<and> PDA_findAcceptingPath loop_PDA [] = None"
proof -
  have "length (PDA_dequeued (final_state_test loop_PDA) loop_PDA 10000 [loop_cfg 0]
             (config_key ` loop_cfg ` {..<0})) = 10000"
    by (rule loop_dequeued_length)
  then have len: "length (PDA_dequeued (final_state_test loop_PDA) loop_PDA 10000
             [PDA_initial loop_PDA []] {}) = 10000"
    by (simp add: loop_PDA_fields)
  have "PDA_search (final_state_test loop_PDA) loop_PDA 10000 [PDA_initial loop_PDA []] {} =
      list_ex (final_state_test loop_PDA)
        (PDA_dequeued (final_state_test loop_PDA) loop_PDA 10000 [PDA_initial loop_PDA []] {})"
    by (rule PDA_search_iff_dequeued) simp
  then have "\<not> PDA_acceptsByFinalState loop_PDA []"
    by (simp add: PDA_acceptsByFinalState_def list_ex_iff loop_not_final)
  with len loop_path_diverges show ?thesis by blast
qed

section \<open>Edit distance is a metric\<close>

lemma lev_Nil2 [simp]: "lev s [] = length s"
  by (cases s) simp_all

lemma lev_refl: "lev s s = 0"
  by (induction s) simp_all

lemma lev_sym: "lev s t = lev t s"
  by (induction s t rule: lev.induct) (simp_all add: min.commute min.left_commute)

text \<open>Adding one character to either argument changes the distance by at most one.\<close>

lemma lev_step:
  "lev (a # s) t \<le> lev s t + 1 \<and> lev s t \<le> lev s (b # t) + 1"
proof (induction "length s + length t" arbitrary: s t a b rule: less_induct)
  case less
  have U: "lev (a # s) t \<le> lev s t + 1"
  proof (cases t)
    case Nil
    then show ?thesis by simp
  next
    case (Cons c t')
    show ?thesis
    proof (cases "a = c")
      case True
      have "lev s t' \<le> lev s (c # t') + 1"
        using less [of s t' a c] Cons by simp
      with True Cons show ?thesis by simp
    next
      case False
      with Cons show ?thesis by simp
    qed
  qed
  have L: "lev s t \<le> lev s (b # t) + 1"
  proof (cases s)
    case Nil
    then show ?thesis by simp
  next
    case (Cons c s')
    have u: "lev (c # s') t \<le> lev s' t + 1"
      using less [of s' t c b] Cons by simp
    have l: "lev s' t \<le> lev s' (b # t) + 1"
      using less [of s' t c b] Cons by simp
    show ?thesis
    proof (cases "c = b")
      case True
      with Cons u show ?thesis by simp
    next
      case False
      with Cons u l show ?thesis by simp
    qed
  qed
  from U L show ?case by blast
qed

lemma lev_Cons_left: "lev (a # s) t \<le> lev s t + 1"
  using lev_step [of a s t a] by simp

lemma lev_Cons_right: "lev s (b # t) \<le> lev s t + 1"
  using lev_Cons_left [of b t s] by (simp add: lev_sym)

lemma lev_drop_right: "lev s t \<le> lev s (b # t) + 1"
  using lev_step [of b s t b] by simp

lemma lev_drop_left: "lev s t \<le> lev (a # s) t + 1"
  using lev_drop_right [of t s a] by (simp add: lev_sym)

lemma lev_length_diff: "length s \<le> lev s t + length t"
proof (induction s t rule: lev.induct)
  case (3 a s b t)
  then show ?case by (auto simp: min_def)
qed simp_all

lemma lev_triangle_base: "lev s u \<le> length s + length u"
proof (induction s u rule: lev.induct)
  case (3 a s b t)
  then show ?case by (auto simp: min_def)
qed simp_all

text \<open>The recurrence without the shortcut for equal heads.\<close>

lemma lev_Cons_Cons:
  "lev (a # s) (b # t) =
     min (lev s (b # t) + 1) (min (lev (a # s) t + 1) (lev s t + (if a = b then 0 else 1)))"
proof (cases "a = b")
  case True
  have "lev s t \<le> lev s (b # t) + 1" by (rule lev_drop_right)
  moreover have "lev s t \<le> lev (a # s) t + 1" by (rule lev_drop_left)
  ultimately show ?thesis using True by simp
next
  case False
  then show ?thesis by simp
qed

lemma lev_triangle: "lev s u \<le> lev s t + lev t u"
proof (induction "length s + length t + length u" arbitrary: s t u rule: less_induct)
  case less
  show ?case
  proof (cases s)
    case Nil
    have "length u \<le> lev u t + length t" by (rule lev_length_diff)
    with Nil show ?thesis by (simp add: lev_sym [of u t])
  next
    case s: (Cons a s')
    show ?thesis
    proof (cases u)
      case Nil
      have "length s \<le> lev s t + length t" by (rule lev_length_diff)
      with Nil show ?thesis by simp
    next
      case u: (Cons c u')
      show ?thesis
      proof (cases t)
        case Nil
        have "lev s u \<le> length s + length u"
          by (rule lev_triangle_base)
        with Nil show ?thesis by simp
      next
        case t: (Cons b t')
        have i1: "lev s' u \<le> lev s' t + lev t u" using less [of s' t u] s by simp
        have i2: "lev s u' \<le> lev s t + lev t u'" using less [of s t u'] u by simp
        have i3: "lev s u \<le> lev s t' + lev t' u" using less [of s t' u] t by simp
        have i4: "lev s u' \<le> lev s t' + lev t' u'" using less [of s t' u'] t u by simp
        have i5: "lev s' u \<le> lev s' t' + lev t' u" using less [of s' t' u] s t by simp
        have i6: "lev s' u' \<le> lev s' t' + lev t' u'" using less [of s' t' u'] s t u by simp
        have up1: "lev s u \<le> lev s' u + 1" unfolding s by (rule lev_Cons_left)
        have up2: "lev s u \<le> lev s u' + 1" unfolding u by (rule lev_Cons_right)
        have up3: "lev s u \<le> lev s' u' + (if a = c then 0 else 1)"
          unfolding s u by (subst lev_Cons_Cons) simp
        have X: "lev s t = min (lev s' t + 1) (min (lev s t' + 1)
                   (lev s' t' + (if a = b then 0 else 1)))"
          unfolding s t by (rule lev_Cons_Cons)
        have Y: "lev t u = min (lev t' u + 1) (min (lev t u' + 1)
                   (lev t' u' + (if b = c then 0 else 1)))"
          unfolding t u by (rule lev_Cons_Cons)
        consider (x1) "lev s t = lev s' t + 1"
          | (x2) "lev s t = lev s t' + 1"
          | (x3) "lev s t = lev s' t' + (if a = b then 0 else 1)"
          using X by (auto simp: min_def split: if_splits)
        then show ?thesis
        proof cases
          case x1
          with i1 up1 show ?thesis by simp
        next
          case x2
          consider (y1) "lev t u = lev t' u + 1"
            | (y2) "lev t u = lev t u' + 1"
            | (y3) "lev t u = lev t' u' + (if b = c then 0 else 1)"
            using Y by (auto simp: min_def split: if_splits)
          then show ?thesis
          proof cases
            case y1
            with x2 i3 show ?thesis by simp
          next
            case y2
            with i2 up2 show ?thesis by simp
          next
            case y3
            with x2 i4 up2 show ?thesis by simp
          qed
        next
          case x3
          consider (y1) "lev t u = lev t' u + 1"
            | (y2) "lev t u = lev t u' + 1"
            | (y3) "lev t u = lev t' u' + (if b = c then 0 else 1)"
            using Y by (auto simp: min_def split: if_splits)
          then show ?thesis
          proof cases
            case y1
            with x3 i5 up1 show ?thesis by simp
          next
            case y2
            with i2 up2 show ?thesis by simp
          next
            case y3
            with x3 i6 up3 show ?thesis by (auto split: if_splits)
          qed
        qed
      qed
    qed
  qed
qed

subsection \<open>The table computes the recurrence\<close>

lemma lev_row_unfold: "lev_row rp rq t = int (lev rp rq) # tl (lev_row rp rq t)"
  by (cases t) simp_all

lemma ed_row_lev_row:
  "ed_row a (lev_row rp rq t) t (int (lev (a # rp) rq)) = tl (lev_row (a # rp) rq t)"
proof (induction t arbitrary: rq)
  case Nil
  then show ?case by simp
next
  case (Cons b t)
  obtain rest where rest: "lev_row rp (b # rq) t = int (lev rp (b # rq)) # rest"
    using lev_row_unfold by blast
  have v: "(if a = b then int (lev rp rq)
            else 1 + min (int (lev rp (b # rq))) (min (int (lev (a # rp) rq)) (int (lev rp rq))))
           = int (lev (a # rp) (b # rq))"
    by (simp add: min_def)
  have "ed_row a (lev_row rp rq (b # t)) (b # t) (int (lev (a # rp) rq))
      = int (lev (a # rp) (b # rq))
          # ed_row a (lev_row rp (b # rq) t) t (int (lev (a # rp) (b # rq)))"
    using v by (simp add: rest Let_def del: lev.simps)
  also have "\<dots> = int (lev (a # rp) (b # rq)) # tl (lev_row (a # rp) (b # rq) t)"
    by (simp only: Cons.IH)
  also have "\<dots> = lev_row (a # rp) (b # rq) t"
    by (rule lev_row_unfold [symmetric])
  finally show ?case by simp
qed

lemma next_row_lev_row:
  "int (Suc (length rp)) # ed_row a (lev_row rp [] s2) s2 (int (Suc (length rp)))
     = lev_row (a # rp) [] s2"
proof -
  have "int (Suc (length rp)) = int (lev (a # rp) [])" by simp
  then have "ed_row a (lev_row rp [] s2) s2 (int (Suc (length rp))) = tl (lev_row (a # rp) [] s2)"
    using ed_row_lev_row [of a rp "[]" s2] by simp
  moreover have "lev_row (a # rp) [] s2 = int (lev (a # rp) []) # tl (lev_row (a # rp) [] s2)"
    by (rule lev_row_unfold)
  ultimately show ?thesis by simp
qed

lemma ed_rows_lev_row:
  "ed_rows (Suc (length rp)) s s2 (lev_row rp [] s2) = lev_row (rev s @ rp) [] s2"
proof (induction s arbitrary: rp)
  case Nil
  then show ?case by simp
next
  case (Cons a s)
  have "ed_rows (Suc (length rp)) (a # s) s2 (lev_row rp [] s2)
      = ed_rows (Suc (length (a # rp))) s s2 (lev_row (a # rp) [] s2)"
    using next_row_lev_row [of rp a s2] by simp
  also have "\<dots> = lev_row (rev s @ a # rp) [] s2"
    by (rule Cons.IH)
  finally show ?case by simp
qed

lemma first_row_lev_row:
  "lev_row [] rq t = map int [length rq..<length rq + length t + 1]"
proof (induction t arbitrary: rq)
  case Nil
  then show ?case by simp
next
  case (Cons b t)
  have "[length rq..<length rq + length (b # t) + 1]
      = length rq # [length (b # rq)..<length (b # rq) + length t + 1]"
    by (simp add: upt_rec)
  with Cons [of "b # rq"] show ?case by simp
qed

lemma last_lev_row: "last (lev_row rp rq t) = int (lev rp (rev t @ rq))"
proof (induction t arbitrary: rq)
  case Nil
  then show ?case by simp
next
  case (Cons b t)
  have "lev_row rp (b # rq) t \<noteq> []"
    by (cases t) simp_all
  with Cons [of "b # rq"] show ?case by simp
qed

lemma editDistance_lev: "editDistance s1 s2 = int (lev (rev s1) (rev s2))"
proof -
  have "map int [0..<length s2 + 1] = lev_row [] [] s2"
    using first_row_lev_row [of "[]" s2] by simp
  then have "ed_rows 1 s1 s2 (map int [0..<length s2 + 1]) = lev_row (rev s1) [] s2"
    using ed_rows_lev_row [of "[]" s1 s2] by simp
  then show ?thesis
    by (simp add: editDistance_def last_lev_row)
qed

text \<open>
  Claim C9. For all strings \<open>s\<close>, \<open>t\<close>, \<open>u\<close>: \<open>editDistance(s, s) = 0\<close>,
  \<open>editDistance(s, t) = editDistance(t, s)\<close> and
  \<open>editDistance(s, u) \<le> editDistance(s, t) + editDistance(t, u)\<close>.
\<close>

theorem editDistance_metric:
  "editDistance s s = 0
   \<and> editDistance s t = editDistance t s
   \<and> editDistance s u \<le> editDistance s t + editDistance t u"
proof -
  have "lev (rev s) (rev u) \<le> lev (rev s) (rev t) + lev (rev t) (rev u)"
    by (rule lev_triangle)
  then have "int (lev (rev s) (rev u)) \<le> int (lev (rev s) (rev t)) + int (lev (rev t) (rev u))"
    by linarith
  moreover have "lev (rev s) (rev t) = lev (rev t) (rev s)"
    by (rule lev_sym)
  ultimately show ?thesis
    by (simp add: editDistance_lev lev_refl)
qed

theorem editDistance_metric_witness:
  "editDistance ''kitten'' ''kitten'' = 0
   \<and> editDistance ''kitten'' ''sitting'' = editDistance ''sitting'' ''kitten''
   \<and> editDistance ''kitten'' ''mitten'' \<le>
       editDistance ''kitten'' ''sitting'' + editDistance ''sitting'' ''mitten''"
  using editDistance_metric [of "''kitten''" "''sitting''" "''mitten''"] by blast

lemma editDistance_example: "editDistance ''kitten'' ''sitting'' = 3"
  by code_simp

section \<open>A brace that does not open a counted quantifier\<close>

text \<open>
  The pattern \<open>a{\<close>. \<open>parseCountedQuantifier\<close> finds no digits after the brace, restores
  the position and returns false; \<open>parseRepeat\<close> leaves its loop with the comment "Not a
  valid quantifier, treat { as literal" and returns the atom \<open>a\<close>; \<open>parseConcat\<close> then
  calls \<open>parseRepeat\<close> and so \<open>parseAtom\<close> at the brace, where \<open>isMetaChar('{')\<close> holds
  and \<open>ParseException("Unexpected metacharacter: {")\<close> is thrown.
\<close>

lemma brace_quantifier_fails: "parseCountedQuantifier ''a{'' (Suc 0) = None"
  by (simp add: parseCountedQuantifier_def parseNumber_def parseNumber_loop.simps
      peek_def isAtEnd_def Let_def)

lemma brace_repeat_loop:
  "repeat_loop ''a{'' (CHAR_NODE (CHR ''a'')) (Suc 0) = (CHAR_NODE (CHR ''a''), Suc 0)"
  by (subst repeat_loop.simps)
     (simp add: brace_quantifier_fails peek_def isAtEnd_def Let_def)

lemma brace_first_atom: "parseRepeat ''a{'' 0 = Some (Inr (CHAR_NODE (CHR ''a''), Suc 0))"
  by (simp add: parseRepeat.simps parseAtom.simps brace_repeat_loop peek_def isAtEnd_def
      isMetaChar_def Let_def)

lemma brace_second_atom:
  "parseRepeat ''a{'' (Suc 0) = Some (Inl (ParseException ''Unexpected metacharacter: {''))"
  by (simp add: parseRepeat.simps parseAtom.simps throw_def peek_def isAtEnd_def
      isMetaChar_def Let_def)

lemma brace_concat:
  "parseConcat ''a{'' 0 = Some (Inl (ParseException ''Unexpected metacharacter: {''))"
proof -
  have "concat_loop ''a{'' [CHAR_NODE (CHR ''a'')] (Suc 0)
      = Some (Inl (ParseException ''Unexpected metacharacter: {''))"
    by (subst concat_loop.simps) (simp add: brace_second_atom peek_def isAtEnd_def)
  then have "concat_loop ''a{'' [] 0
      = Some (Inl (ParseException ''Unexpected metacharacter: {''))"
    by (subst concat_loop.simps) (simp add: brace_first_atom peek_def isAtEnd_def)
  then show ?thesis by (simp add: parseConcat.simps)
qed

text \<open>
  Claim C5 (the code departs from it). On the pattern \<open>a{\<close>, in which the brace is not
  followed by a bounds expression, \<open>parse\<close> fails with a \<open>ParseException\<close> raised at
  that brace instead of treating the brace as a literal character.
\<close>

theorem parse_rejects_literal_brace:
  "parse ''a{'' = Some (Inl (ParseException ''Unexpected metacharacter: {''))"
  by (simp add: parse_def parseUnion.simps brace_concat)

text \<open>A well-formed counted quantifier is parsed.\<close>

lemma counted_quantifier_example:
  "parseUnion ''a{2,3}'' 0 = Some (Inr (REPEAT_N (CHAR_NODE (CHR ''a'')) 2 3, 6))"
proof -
  have q: "parseCountedQuantifier ''a{2,3}'' (Suc 0) = Some (2, 3, 6)"
    by (simp add: parseCountedQuantifier_def parseNumber_def parseNumber_loop.simps
        peek_def isAtEnd_def isdigit_def Let_def wrap32_def)
  have e: "repeat_loop ''a{2,3}'' (REPEAT_N (CHAR_NODE (CHR ''a'')) 2 3) 6
      = (REPEAT_N (CHAR_NODE (CHR ''a'')) 2 3, 6)"
    by (subst repeat_loop.simps) (simp add: isAtEnd_def)
  have r: "repeat_loop ''a{2,3}'' (CHAR_NODE (CHR ''a'')) (Suc 0)
      = (REPEAT_N (CHAR_NODE (CHR ''a'')) 2 3, 6)"
    by (subst repeat_loop.simps) (simp add: q e peek_def isAtEnd_def Let_def)
  have a: "parseRepeat ''a{2,3}'' 0 = Some (Inr (REPEAT_N (CHAR_NODE (CHR ''a'')) 2 3, 6))"
    by (simp add: parseRepeat.simps parseAtom.simps r peek_def isAtEnd_def isMetaChar_def
        Let_def)
  have "concat_loop ''a{2,3}'' [REPEAT_N (CHAR_NODE (CHR ''a'')) 2 3] 6
      = Some (Inr ([REPEAT_N (CHAR_NODE (CHR ''a'')) 2 3], 6))"
    by (subst concat_loop.simps) (simp add: isAtEnd_def)
  then have "concat_loop ''a{2,3}'' [] 0
      = Some (Inr ([REPEAT_N (CHAR_NODE (CHR ''a'')) 2 3], 6))"
    by (subst concat_loop.simps) (simp add: a peek_def isAtEnd_def)
  then have "parseConcat ''a{2,3}'' 0 = Some (Inr (REPEAT_N (CHAR_NODE (CHR ''a'')) 2 3, 6))"
    by (simp add: parseConcat.simps build_concat_def)
  then show ?thesis
    by (simp add: parseUnion.simps union_loop.simps peek_def isAtEnd_def)
qed

text \<open>A count of \<open>2^31\<close> or more wraps around in the 32-bit accumulator.\<close>

lemma parseNumber_wraps:
  "parseNumber ''2147483648'' 0 = (- 2147483648, 10)"
  "parseNumber ''4294967298'' 0 = (2, 10)"
  by (simp_all add: parseNumber_def parseNumber_loop.simps peek_def isAtEnd_def isdigit_def
      wrap32_def)

section \<open>The iteration order of a set of symbols\<close>

lemma char_codes_set: "set ([128..<256] @ [0..<128::nat]) = {0..<256}"
  unfolding set_append set_upt by auto

lemma all_chars_in_order_set: "set all_chars_in_order = UNIV"
proof -
  have "c \<in> set all_chars_in_order" for c :: char
  proof -
    have "of_char c < (256::nat)" by (rule nat_of_char_less_256)
    then have "(of_char c :: nat) \<in> set ([128..<256] @ [0..<128])"
      unfolding char_codes_set by simp
    then have "char_of (of_char c :: nat) \<in> set all_chars_in_order"
      unfolding all_chars_in_order_def set_map by (rule imageI)
    then show ?thesis by simp
  qed
  then show ?thesis by blast
qed

lemma all_chars_in_order_distinct: "distinct all_chars_in_order"
proof -
  have "inj_on (char_of :: nat \<Rightarrow> char) (set ([128..<256] @ [0..<128]))"
  proof (rule inj_onI)
    fix x y :: nat
    assume x: "x \<in> set ([128..<256] @ [0..<128])" and y: "y \<in> set ([128..<256] @ [0..<128])"
      and e: "(char_of x :: char) = char_of y"
    from x y have "x < 256" "y < 256" unfolding char_codes_set by simp_all
    then have "of_char (char_of x :: char) = x" "of_char (char_of y :: char) = y"
      by (simp_all add: of_char_of)
    with e show "x = y" by simp
  qed
  moreover have "distinct ([128..<256] @ [0..<128::nat])" by auto
  ultimately show ?thesis
    unfolding all_chars_in_order_def by (simp only: distinct_map)
qed

lemma symbols_in_order_set [simp]: "set (symbols_in_order S) = S"
  by (auto simp: symbols_in_order_def all_chars_in_order_set)

lemma symbols_in_order_distinct [simp]: "distinct (symbols_in_order S)"
  by (simp add: symbols_in_order_def all_chars_in_order_distinct)

section \<open>The public DFA operations keep the automaton well formed\<close>












section \<open>The invariant of the subset construction\<close>










section \<open>The subset automaton accepts what the NFA accepts\<close>

lemma nstep_empty [simp]: "nstep n {} c = {}"
  by (simp add: nstep_def NFA_move_def NFA_epsilonClosure_def)

lemma nstep_foldl_empty [simp]: "foldl (nstep n) {} w = {}"
  by (induction w) simp_all





section \<open>One refinement step of \<open>minimize\<close> keeps the invariant\<close>
















section \<open>The refinement loop of \<open>minimize\<close> stops with a stable partition\<close>








section \<open>The quotient automaton of \<open>minimize\<close>\<close>
















section \<open>The minimized automaton accepts what the original accepts\<close>





section \<open>The automaton built from a pattern has a start state\<close>























section \<open>NFA, subset automaton and minimized automaton agree\<close>










end
